theory Spec2Isabelle
  imports Complex_Main "HOL-Library.Word"
begin

unbundle bit_operations_syntax

section \<open>Constants of the rate-1/2, K = 7 convolutional code (coding.h)\<close>

definition CONV_K :: nat where
  "CONV_K = 7"

definition CONV_STATES :: nat where
  "CONV_STATES = push_bit (CONV_K - 1) 1"

text \<open>The generators are written in octal in the header: 0133 = 91 and 0171 = 121.\<close>

definition CONV_G0 :: nat where
  "CONV_G0 = 91"

definition CONV_G1 :: nat where
  "CONV_G1 = 121"

section \<open>Convolutional encoder (coding.c)\<close>

text \<open>
  Bytes (\<^verbatim>\<open>uint8_t\<close>), encoder registers and decoder states are natural numbers, with
  \<^verbatim>\<open>&\<close>, \<^verbatim>\<open>|\<close>, \<^verbatim>\<open><<\<close> and \<^verbatim>\<open>>>\<close> as \<open>AND\<close>, \<open>OR\<close>, \<open>push_bit\<close> and
  \<open>drop_bit\<close>. Registers and states are masked to 7 or 6 bits after every shift, so the
  32-bit width of \<^verbatim>\<open>int\<close> and \<^verbatim>\<open>unsigned int\<close> never matters.

  \<^verbatim>\<open>popcount\<close> is the loop \<^verbatim>\<open>while (x) { c += x & 1; x >>= 1; }\<close>; the counter
  \<open>c\<close> is the accumulator of \<open>popcount_loop\<close>.
\<close>

function popcount_loop :: "nat \<Rightarrow> nat \<Rightarrow> nat" where
  "popcount_loop c x = (if x = 0 then c else popcount_loop (c + (x AND 1)) (drop_bit 1 x))"
  by pat_completeness auto
termination
  by (relation "measure (\<lambda>(c, x). x)") (auto simp: drop_bit_eq_div)

definition popcount :: "nat \<Rightarrow> nat" where
  "popcount x = popcount_loop 0 x"

text \<open>
  \<^verbatim>\<open>conv_encode(in, n, out)\<close>: the array \<^verbatim>\<open>in\<close> with its length \<^verbatim>\<open>n\<close> is the
  argument list, the result is the list of the \<open>2 * n\<close> bytes written to \<^verbatim>\<open>out\<close>, in
  index order. \<open>conv_encode_loop\<close> is the body of the \<^verbatim>\<open>for\<close> loop, with the
  register \<^verbatim>\<open>state\<close> passed along.
\<close>

fun conv_encode_loop :: "nat \<Rightarrow> nat list \<Rightarrow> nat list" where
  "conv_encode_loop state [] = []"
| "conv_encode_loop state (b # bs) =
     (let state' = (push_bit 1 state OR (b AND 1)) AND (CONV_STATES * 2 - 1)
      in (popcount (state' AND CONV_G0) AND 1)
         # (popcount (state' AND CONV_G1) AND 1)
         # conv_encode_loop state' bs)"

definition conv_encode :: "nat list \<Rightarrow> nat list" where
  "conv_encode inp = conv_encode_loop 0 inp"

section \<open>Block interleaver (coding.c)\<close>

record Interleaver =
  rows :: int
  cols :: int
  perm :: "int list"
  inv :: "int list"

text \<open>
  One iteration of the inner loop of \<^verbatim>\<open>interleaver_init\<close>, on the pair of tables
  \<open>(perm, inv)\<close>.
\<close>

definition init_cell :: "int \<Rightarrow> int \<Rightarrow> nat \<Rightarrow> int list \<times> int list \<Rightarrow> nat \<Rightarrow> int list \<times> int list" where
  "init_cell rws cls r tabs c =
     (let write_idx = int r * cls + int c;
          read_idx = int c * rws + int r
      in ((fst tabs)[nat write_idx := read_idx], (snd tabs)[nat read_idx := write_idx]))"

definition init_row :: "int \<Rightarrow> int \<Rightarrow> int list \<times> int list \<Rightarrow> nat \<Rightarrow> int list \<times> int list" where
  "init_row rws cls tabs r = foldl (init_cell rws cls r) tabs [0..<nat cls]"

text \<open>
  \<^verbatim>\<open>malloc\<close> is the environment's: its two results are the arguments \<open>mp\<close> and
  \<open>mi\<close>, \<open>None\<close> for a null pointer and otherwise the fresh block with whatever it
  holds. A null pointer makes the function return \<open>-1\<close>, here \<open>None\<close>. C's \<^verbatim>\<open>int\<close>
  is modelled by \<open>int\<close>: signed overflow of \<open>rows * cols\<close> is undefined in C, and no
  statement below is about such a call.
\<close>

definition interleaver_init :: "int list option \<Rightarrow> int list option \<Rightarrow> int \<Rightarrow> int \<Rightarrow> Interleaver option" where
  "interleaver_init mp mi rws cls =
     (case mp of
        None \<Rightarrow> None
      | Some p0 \<Rightarrow>
          (case mi of
             None \<Rightarrow> None
           | Some i0 \<Rightarrow>
               (let tabs = foldl (init_row rws cls) (p0, i0) [0..<nat rws]
                in Some \<lparr>rows = rws, cols = cls, perm = fst tabs, inv = snd tabs\<rparr>)))"

text \<open>
  \<^verbatim>\<open>interleaver_apply\<close> and \<^verbatim>\<open>interleaver_deapply\<close> write into the caller's
  buffer \<^verbatim>\<open>out\<close>, whose contents before the call are the argument \<open>out\<close>; the result
  is the buffer after the call. The loop runs for \<open>i < n\<close> and \<open>i < size\<close>. A table
  entry that is not an index of \<^verbatim>\<open>out\<close> makes the C code write out of bounds; the
  statements below are about interleavers whose tables are in range.
\<close>

definition interleaver_apply :: "Interleaver \<Rightarrow> 'a list \<Rightarrow> 'a list \<Rightarrow> int \<Rightarrow> 'a list" where
  "interleaver_apply itl inp out n =
     (let size = rows itl * cols itl
      in foldl (\<lambda>out i. out[nat (perm itl ! i) := inp ! i]) out [0..<nat (min n size)])"

definition interleaver_deapply :: "Interleaver \<Rightarrow> 'a list \<Rightarrow> 'a list \<Rightarrow> int \<Rightarrow> 'a list" where
  "interleaver_deapply itl inp out n =
     (let size = rows itl * cols itl
      in foldl (\<lambda>out i. out[nat (inv itl ! i) := inp ! i]) out [0..<nat (min n size)])"

section \<open>Viterbi decoder (coding.c)\<close>

text \<open>
  The path metrics are C \<^verbatim>\<open>double\<close>s, modelled by \<open>real\<close>. The hard-decision
  metrics are sums of at most 256 Hamming distances, so every finite value the decoder
  computes is an integer between 0 and 512 and its floating-point arithmetic is exact. On
  log-likelihood ratios that are all \<open>10\<close> or \<open>-10\<close> the soft-decision metrics are integer
  multiples of 20 of magnitude at most 5120, exact as well. \<^verbatim>\<open>VITERBI_INF\<close> is the
  literal \<^verbatim>\<open>1e30\<close>; it is only ever compared with such values or with itself.
\<close>

definition VITERBI_INF :: real where
  "VITERBI_INF = 10 ^ 30"

text \<open>
  The body of \<^verbatim>\<open>for (bit = 0; bit <= 1; bit++)\<close>, the variable \<^verbatim>\<open>bit\<close>
  being \<open>b\<close> here. The two decoders differ only in
  the line that computes \<^verbatim>\<open>metric\<close> from \<^verbatim>\<open>pm_old[s]\<close>, \<^verbatim>\<open>e0\<close> and
  \<^verbatim>\<open>e1\<close>; that line is the argument \<open>mf\<close>, called as \<open>mf (pm_old ! s) e0 e1\<close>.
  The state of the loop is the pair of \<^verbatim>\<open>pm_new\<close> and the row \<^verbatim>\<open>path[t]\<close>. The
  table \<^verbatim>\<open>path\<close> is an uninitialised stack array: an entry that was never written is
  \<open>None\<close>.
\<close>

definition acs_branch :: "(real \<Rightarrow> nat \<Rightarrow> nat \<Rightarrow> real) \<Rightarrow> real list \<Rightarrow> nat \<Rightarrow>
    real list \<times> nat option list \<Rightarrow> nat \<Rightarrow> real list \<times> nat option list" where
  "acs_branch mf pm_old s acc b =
     (let ns = (push_bit 1 s OR b) AND (CONV_STATES - 1);
          full_state = push_bit 1 s OR b;
          e0 = popcount (full_state AND CONV_G0) AND 1;
          e1 = popcount (full_state AND CONV_G1) AND 1;
          metric = mf (pm_old ! s) e0 e1
      in if metric < fst acc ! ns
         then ((fst acc)[ns := metric], (snd acc)[ns := Some s])
         else acc)"

text \<open>The body of the loop over the source states \<open>s\<close>, with its \<^verbatim>\<open>continue\<close>.\<close>

definition acs_state :: "(real \<Rightarrow> nat \<Rightarrow> nat \<Rightarrow> real) \<Rightarrow> real list \<Rightarrow>
    real list \<times> nat option list \<Rightarrow> nat \<Rightarrow> real list \<times> nat option list" where
  "acs_state mf pm_old acc s =
     (if pm_old ! s \<ge> VITERBI_INF then acc
      else foldl (acs_branch mf pm_old s) acc [0..<2])"

text \<open>
  One time step \<open>t\<close>: \<^verbatim>\<open>pm_new\<close> is reset, all states are visited in index order, and
  the result is the new \<^verbatim>\<open>pm_old\<close> (the \<^verbatim>\<open>memcpy\<close>) with the row \<^verbatim>\<open>path[t]\<close>.
\<close>

definition acs_step :: "(real \<Rightarrow> nat \<Rightarrow> nat \<Rightarrow> real) \<Rightarrow> real list \<Rightarrow> real list \<times> nat option list" where
  "acs_step mf pm_old =
     foldl (acs_state mf pm_old)
       (replicate CONV_STATES VITERBI_INF, replicate CONV_STATES None) [0..<CONV_STATES]"

text \<open>
  The loop over \<open>t\<close>: the list \<open>mfs\<close> holds the metric line of each time step, in the
  order of the steps. The result is the final \<^verbatim>\<open>pm_old\<close> and the rows of \<^verbatim>\<open>path\<close>
  that were filled, row \<open>t\<close> at index \<open>t\<close>.
\<close>

fun forward :: "(real \<Rightarrow> nat \<Rightarrow> nat \<Rightarrow> real) list \<Rightarrow> real list \<Rightarrow> real list \<times> nat option list list" where
  "forward [] pm_old = (pm_old, [])"
| "forward (mf # mfs) pm_old =
     (let step = acs_step mf pm_old;
          rest = forward mfs (fst step)
      in (fst rest, snd step # snd rest))"

text \<open>The initial metrics: every state at \<^verbatim>\<open>VITERBI_INF\<close> except state 0.\<close>

definition pm_init :: "real list" where
  "pm_init = (replicate CONV_STATES VITERBI_INF)[0 := 0]"

text \<open>The search for the best final state, \<open>s\<close> from 1 upwards with a strict comparison.\<close>

definition best_state :: "real list \<Rightarrow> nat" where
  "best_state pm = foldl (\<lambda>best s. if pm ! s < pm ! best then s else best) 0 [1..<CONV_STATES]"

text \<open>
  The traceback loop runs \<open>t\<close> downwards, so it takes the rows of \<^verbatim>\<open>path\<close> last row
  first, and the bit it writes to \<^verbatim>\<open>decoded[t]\<close> goes in front of the bits written
  before (those of the later positions). Reading a row entry that was never written gives
  no result: the whole decode is \<open>None\<close> then.
\<close>

fun traceback :: "nat option list list \<Rightarrow> nat \<Rightarrow> nat list \<Rightarrow> nat list option" where
  "traceback [] state decoded = Some decoded"
| "traceback (row # rws) state decoded =
     (case row ! state of
        None \<Rightarrow> None
      | Some prev \<Rightarrow> traceback rws prev ((drop_bit (CONV_K - 2) state AND 1) # decoded))"

text \<open>
  Everything the two decoders share after \<^verbatim>\<open>max_len\<close> is known. The result is the
  returned \<^verbatim>\<open>max_len\<close> with the bytes written to \<^verbatim>\<open>decoded[0 .. max_len - 1]\<close>.
\<close>

definition viterbi_run :: "(real \<Rightarrow> nat \<Rightarrow> nat \<Rightarrow> real) list \<Rightarrow> (int \<times> nat list) option" where
  "viterbi_run mfs =
     (let fw = forward mfs pm_init
      in map_option (\<lambda>decoded. (int (length mfs), decoded))
           (traceback (rev (snd fw)) (best_state (fst fw)) []))"

text \<open>
  The metric line of the hard-decision decoder at a time step with received bits
  \<open>r0\<close> and \<open>r1\<close>: \<^verbatim>\<open>bm = (e0 != r0) + (e1 != r1); metric = pm_old[s] + bm\<close>.
\<close>

definition hard_metric :: "nat \<Rightarrow> nat \<Rightarrow> real \<Rightarrow> nat \<Rightarrow> nat \<Rightarrow> real" where
  "hard_metric r0 r1 pm e0 e1 =
     (let bm = (if e0 \<noteq> r0 then 1 else 0) + (if e1 \<noteq> r1 then 1 else 0)
      in pm + bm)"

text \<open>
  \<^verbatim>\<open>viterbi_decode(coded, n_coded, decoded)\<close>: the array \<^verbatim>\<open>coded\<close> with its length
  \<^verbatim>\<open>n_coded\<close> is the argument list. A length below 2 returns 0 and writes nothing.
\<close>

definition viterbi_decode :: "nat list \<Rightarrow> (int \<times> nat list) option" where
  "viterbi_decode coded =
     (let n_data = length coded div 2
      in if n_data < 1 then Some (0, [])
         else
           (let max_len = (if n_data < 256 then n_data else 256)
            in viterbi_run
                 (map (\<lambda>t. hard_metric (coded ! (2 * t) AND 1) (coded ! (2 * t + 1) AND 1))
                    [0..<max_len])))"

text \<open>
  The metric line of the soft-decision decoder at a time step with log-likelihood ratios
  \<open>l0\<close> and \<open>l1\<close>:
  \<^verbatim>\<open>bm = (e0 ? -l0 : l0) + (e1 ? -l1 : l1); metric = pm_old[s] - bm\<close>.
\<close>

definition soft_metric :: "real \<Rightarrow> real \<Rightarrow> real \<Rightarrow> nat \<Rightarrow> nat \<Rightarrow> real" where
  "soft_metric l0 l1 pm e0 e1 =
     (let bm = (if e0 \<noteq> 0 then - l0 else l0) + (if e1 \<noteq> 0 then - l1 else l1)
      in pm - bm)"

definition viterbi_decode_soft :: "real list \<Rightarrow> (int \<times> nat list) option" where
  "viterbi_decode_soft llr =
     (let n_data = length llr div 2
      in if n_data < 1 then Some (0, [])
         else
           (let max_len = (if n_data < 256 then n_data else 256)
            in viterbi_run
                 (map (\<lambda>t. soft_metric (llr ! (2 * t)) (llr ! (2 * t + 1))) [0..<max_len])))"

section \<open>Auxiliary notions for the proofs\<close>

text \<open>
  The loop invariant of \<^verbatim>\<open>interleaver_init\<close> for an \<open>R\<close> by \<open>C\<close> block: both tables
  have \<open>R * C\<close> entries, and the cells of the rows before \<open>r\<close> and of row \<open>r\<close> before
  column \<open>c\<close> hold their final values.
\<close>

definition filled :: "nat \<Rightarrow> nat \<Rightarrow> int list \<times> int list \<Rightarrow> nat \<Rightarrow> nat \<Rightarrow> bool" where
  "filled R C tabs r c \<longleftrightarrow>
     length (fst tabs) = R * C \<and> length (snd tabs) = R * C \<and>
     (\<forall>r' c'. (r' < r \<and> c' < C) \<or> (r' = r \<and> c' < c) \<longrightarrow>
        fst tabs ! (r' * C + c') = int (c' * R + r') \<and>
        snd tabs ! (c' * R + r') = int (r' * C + c'))"

text \<open>
  The interleaver of the burst scenario (chapter 12 of the repository), 8 rows and 6
  columns, with its two tables written out; \<open>burst_itl_eq\<close> below shows that it is what
  \<^verbatim>\<open>interleaver_init\<close> builds.
\<close>

definition burst_itl :: Interleaver where
  "burst_itl = \<lparr>rows = 8, cols = 6,
     perm = [0, 8, 16, 24, 32, 40, 1, 9, 17, 25, 33, 41, 2, 10, 18, 26, 34, 42, 3, 11, 19, 27, 35, 43,
             4, 12, 20, 28, 36, 44, 5, 13, 21, 29, 37, 45, 6, 14, 22, 30, 38, 46, 7, 15, 23, 31, 39, 47],
     inv = [0, 6, 12, 18, 24, 30, 36, 42, 1, 7, 13, 19, 25, 31, 37, 43, 2, 8, 14, 20, 26, 32, 38, 44,
            3, 9, 15, 21, 27, 33, 39, 45, 4, 10, 16, 22, 28, 34, 40, 46, 5, 11, 17, 23, 29, 35, 41, 47]\<rparr>"

text \<open>
  The two output bits of the encoder for a 7-bit register value, as both the encoder and
  the decoders compute them.
\<close>

definition enc_bit0 :: "nat \<Rightarrow> nat" where
  "enc_bit0 full_state = popcount (full_state AND CONV_G0) AND 1"

definition enc_bit1 :: "nat \<Rightarrow> nat" where
  "enc_bit1 full_state = popcount (full_state AND CONV_G1) AND 1"

text \<open>
  The candidate metric that the branch from state \<open>s\<close> with input bit \<open>b\<close> offers to its
  destination state, and what visiting source state \<open>s\<close> does to the pair
  (\<^verbatim>\<open>pm_new[ns]\<close>, \<^verbatim>\<open>path[t][ns]\<close>) of a destination \<open>ns\<close> that \<open>s\<close> leads to.
\<close>

definition cand :: "(real \<Rightarrow> nat \<Rightarrow> nat \<Rightarrow> real) \<Rightarrow> real list \<Rightarrow> nat \<Rightarrow> nat \<Rightarrow> real" where
  "cand mf pm s b = mf (pm ! s) (enc_bit0 (2 * s + b)) (enc_bit1 (2 * s + b))"

definition upd :: "(real \<Rightarrow> nat \<Rightarrow> nat \<Rightarrow> real) \<Rightarrow> real list \<Rightarrow> nat \<Rightarrow> real \<times> nat option \<Rightarrow> nat \<Rightarrow> real \<times> nat option" where
  "upd mf pm ns e s =
     (if pm ! s \<ge> VITERBI_INF then e
      else if cand mf pm s (ns mod 2) < fst e then (cand mf pm s (ns mod 2), Some s)
      else e)"

definition entry :: "real list \<times> nat option list \<Rightarrow> nat \<Rightarrow> real \<times> nat option" where
  "entry acc ns = (fst acc ! ns, snd acc ! ns)"

text \<open>
  The metric lines of the hard-decision decoder, and the invariant of its path metrics: a
  metric is either untouched (\<^verbatim>\<open>VITERBI_INF\<close>) or between 0 and the bound \<open>B\<close>, and
  at least one state has been reached.
\<close>

definition is_hard :: "(real \<Rightarrow> nat \<Rightarrow> nat \<Rightarrow> real) \<Rightarrow> bool" where
  "is_hard mf \<longleftrightarrow> (\<exists>r0 r1. mf = hard_metric r0 r1)"

definition reach :: "real \<Rightarrow> real list \<Rightarrow> bool" where
  "reach B pm \<longleftrightarrow>
     length pm = 64 \<and> (\<forall>s<64. pm ! s = VITERBI_INF \<or> (0 \<le> pm ! s \<and> pm ! s \<le> B))
     \<and> (\<exists>s<64. pm ! s < VITERBI_INF)"

text \<open>
  The encoder's register after a run of input bits, with the update of \<^verbatim>\<open>conv_encode\<close> as
  it is written, and the decoder's 6-bit trellis state after the same bits.
\<close>

definition enc_reg :: "nat \<Rightarrow> nat list \<Rightarrow> nat" where
  "enc_reg st inp = foldl (\<lambda>state b. (push_bit 1 state OR (b AND 1)) AND (CONV_STATES * 2 - 1)) st inp"

definition trellis_state :: "nat list \<Rightarrow> nat" where
  "trellis_state inp = foldl (\<lambda>s b. (2 * s + b) mod 64) 0 inp"

text \<open>
  The path metrics of a noiseless decode: the state the encoder went through has metric 0
  and every other state has metric at least 1. \<open>noiseless_metrics\<close> are the metric lines of
  the hard-decision decoder on the encoder's output for the given input bits.
\<close>

definition peaked :: "real list \<Rightarrow> nat \<Rightarrow> bool" where
  "peaked pm s \<longleftrightarrow> length pm = 64 \<and> s < 64 \<and> pm ! s = 0 \<and> (\<forall>q<64. q \<noteq> s \<longrightarrow> 1 \<le> pm ! q)"

definition noiseless_metrics :: "nat list \<Rightarrow> (real \<Rightarrow> nat \<Rightarrow> nat \<Rightarrow> real) list" where
  "noiseless_metrics inp =
     map (\<lambda>t. hard_metric (enc_bit0 (2 * trellis_state (take t inp) + inp ! t) AND 1)
                           (enc_bit1 (2 * trellis_state (take t inp) + inp ! t) AND 1))
       [0..<length inp]"

text \<open>
  The saturated log-likelihood ratio of a hard bit, and the relation between the two
  decoders on such an input after \<open>t\<close> time steps: the same states are untouched, and a
  reached state with hard metric \<open>m\<close> has soft metric \<open>20 * m - 20 * t\<close>.
\<close>

definition sat_llr :: "nat \<Rightarrow> real" where
  "sat_llr b = (if b = 0 then 10 else - 10)"

definition sim_entry :: "real \<Rightarrow> real \<times> nat option \<Rightarrow> real \<times> nat option \<Rightarrow> bool" where
  "sim_entry t eh es \<longleftrightarrow>
     snd eh = snd es \<and>
     ((fst eh = VITERBI_INF \<and> fst es = VITERBI_INF)
      \<or> (0 \<le> fst eh \<and> fst eh \<le> 2 * t \<and> fst es = 20 * fst eh - 20 * t))"

definition sim :: "real \<Rightarrow> real list \<Rightarrow> real list \<Rightarrow> bool" where
  "sim t pmh pms \<longleftrightarrow>
     length pmh = 64 \<and> length pms = 64 \<and>
     (\<forall>s<64. (pmh ! s = VITERBI_INF \<and> pms ! s = VITERBI_INF)
        \<or> (0 \<le> pmh ! s \<and> pmh ! s \<le> 2 * t \<and> pms ! s = 20 * pmh ! s - 20 * t))"

definition paired :: "(real \<Rightarrow> nat \<Rightarrow> nat \<Rightarrow> real) \<Rightarrow> (real \<Rightarrow> nat \<Rightarrow> nat \<Rightarrow> real) \<Rightarrow> bool" where
  "paired mfh mfs \<longleftrightarrow>
     (\<exists>r0 r1. r0 < 2 \<and> r1 < 2 \<and> mfh = hard_metric r0 r1 \<and> mfs = soft_metric (sat_llr r0) (sat_llr r1))"

section \<open>The encoder as the specification words it\<close>

text \<open>
  These two definitions follow the specification, not the code. The register starts at 0
  and each input bit updates it to \<open>((register << 1) | bit) mod 2 ^ K\<close>; an output bit is the
  parity, that is the number of one bits modulo 2, of the \<open>K\<close>-bit register ANDed with a
  generator.
\<close>

definition spec_register :: "nat list \<Rightarrow> nat" where
  "spec_register bits = foldl (\<lambda>register b. (push_bit 1 register OR b) mod 2 ^ CONV_K) 0 bits"

definition spec_parity :: "nat \<Rightarrow> nat" where
  "spec_parity v = length (filter (bit v) [0..<CONV_K]) mod 2"

section \<open>The block interleaver\<close>

lemma idx_inj:
  fixes r c r' c' C :: nat
  assumes "c < C" "c' < C" "r * C + c = r' * C + c'"
  shows "r = r' \<and> c = c'"
proof -
  have "(c + r * C) div C = r" "(c' + r' * C) div C = r'"
    using assms(1,2) by simp_all
  then have "r = r'" using assms(3) by (simp add: add.commute)
  then show ?thesis using assms(3) by simp
qed

lemma idx_bound:
  fixes r c R C :: nat
  assumes "r < R" "c < C"
  shows "r * C + c < R * C"
proof -
  have "r * C + c < r * C + C" using assms by simp
  also have "\<dots> = Suc r * C" by simp
  also have "\<dots> \<le> R * C" using assms(1) by (intro mult_le_mono1) simp
  finally show ?thesis .
qed

lemma init_cell_filled:
  assumes "filled R C tabs r c" "r < R" "c < C"
  shows "filled R C (init_cell (int R) (int C) r tabs c) r (Suc c)"
proof -
  have w: "nat (int r * int C + int c) = r * C + c"
    by (simp add: nat_add_distrib nat_mult_distrib)
  have rd: "nat (int c * int R + int r) = c * R + r"
    by (simp add: nat_add_distrib nat_mult_distrib)
  have bw: "r * C + c < R * C" using assms by (simp add: idx_bound)
  have br: "c * R + r < R * C" using idx_bound [of c C r R] assms by (simp add: mult.commute)
  have step: "init_cell (int R) (int C) r tabs c =
      ((fst tabs)[r * C + c := int (c * R + r)], (snd tabs)[c * R + r := int (r * C + c)])"
    unfolding init_cell_def Let_def w rd by simp
  show ?thesis
    unfolding filled_def step
  proof (intro conjI allI impI)
    fix r' c'
    assume h: "r' < r \<and> c' < C \<or> r' = r \<and> c' < Suc c"
    then have c'C: "c' < C" and r'R: "r' < R" using assms by auto
    show "fst ((fst tabs)[r * C + c := int (c * R + r)], (snd tabs)[c * R + r := int (r * C + c)]) ! (r' * C + c') = int (c' * R + r')"
    proof (cases "r' = r \<and> c' = c")
      case True
      then show ?thesis using assms(1) bw by (simp add: filled_def)
    next
      case False
      then have ne: "r * C + c \<noteq> r' * C + c'" using idx_inj [OF assms(3) c'C] by blast
      have old: "r' < r \<and> c' < C \<or> r' = r \<and> c' < c" using h False by auto
      have "fst tabs ! (r' * C + c') = int (c' * R + r')"
        using assms(1) old unfolding filled_def by blast
      then show ?thesis using ne by simp
    qed
    show "snd ((fst tabs)[r * C + c := int (c * R + r)], (snd tabs)[c * R + r := int (r * C + c)]) ! (c' * R + r') = int (r' * C + c')"
    proof (cases "r' = r \<and> c' = c")
      case True
      then show ?thesis using assms(1) br by (simp add: filled_def)
    next
      case False
      then have ne: "c * R + r \<noteq> c' * R + r'" using idx_inj [OF assms(2) r'R, of c c'] by blast
      have old: "r' < r \<and> c' < C \<or> r' = r \<and> c' < c" using h False by auto
      have "snd tabs ! (c' * R + r') = int (r' * C + c')"
        using assms(1) old unfolding filled_def by blast
      then show ?thesis using ne by simp
    qed
  qed (use assms(1) in \<open>simp_all add: filled_def\<close>)
qed

lemma init_row_filled_aux:
  assumes "filled R C tabs r 0" "r < R" "k \<le> C"
  shows "filled R C (foldl (init_cell (int R) (int C) r) tabs [0..<k]) r k"
  using assms(3)
proof (induction k)
  case 0
  then show ?case using assms(1) by simp
next
  case (Suc k)
  then have "filled R C (foldl (init_cell (int R) (int C) r) tabs [0..<k]) r k" by simp
  from init_cell_filled [OF this assms(2)] Suc.prems show ?case by simp
qed

lemma filled_next_row: "filled R C tabs r C \<Longrightarrow> filled R C tabs (Suc r) 0"
  unfolding filled_def by (auto simp: less_Suc_eq)

lemma init_row_filled:
  assumes "filled R C tabs r 0" "r < R"
  shows "filled R C (init_row (int R) (int C) tabs r) (Suc r) 0"
  unfolding init_row_def using init_row_filled_aux [OF assms, of C] 
  by (simp add: filled_next_row)

lemma init_rows_filled:
  assumes "length p0 = R * C" "length i0 = R * C" "k \<le> R"
  shows "filled R C (foldl (init_row (int R) (int C)) (p0, i0) [0..<k]) k 0"
  using assms(3)
proof (induction k)
  case 0
  then show ?case using assms by (simp add: filled_def)
next
  case (Suc k)
  then have "filled R C (foldl (init_row (int R) (int C)) (p0, i0) [0..<k]) k 0" by simp
  from init_row_filled [OF this] Suc.prems show ?case by simp
qed

lemma interleaver_init_tables:
  assumes "interleaver_init (Some p0) (Some i0) (int R) (int C) = Some itl"
    and "length p0 = R * C" "length i0 = R * C"
  shows "rows itl = int R \<and> cols itl = int C \<and> length (perm itl) = R * C \<and> length (inv itl) = R * C
     \<and> (\<forall>r<R. \<forall>c<C. perm itl ! (r * C + c) = int (c * R + r) \<and> inv itl ! (c * R + r) = int (r * C + c))"
proof -
  let ?tabs = "foldl (init_row (int R) (int C)) (p0, i0) [0..<R]"
  have itl: "itl = \<lparr>rows = int R, cols = int C, perm = fst ?tabs, inv = snd ?tabs\<rparr>"
    using assms(1) by (simp add: interleaver_init_def Let_def)
  have "filled R C ?tabs R 0" using init_rows_filled [OF assms(2,3), of R] by simp
  then show ?thesis unfolding itl filled_def by simp
qed


lemma interleaver_init_nth:
  assumes "interleaver_init (Some p0) (Some i0) (int R) (int C) = Some itl"
    and "length p0 = R * C" "length i0 = R * C"
  shows "i < R * C \<Longrightarrow> perm itl ! i = int ((i mod C) * R + i div C)"
    and "i < R * C \<Longrightarrow> inv itl ! i = int ((i mod R) * C + i div R)"
proof -
  note t = interleaver_init_tables [OF assms]
  {
    assume i: "i < R * C"
    then have C: "0 < C" by (cases C) auto
    have "i div C < R" using i by (simp add: less_mult_imp_div_less)
    moreover have "i mod C < C" using C by simp
    ultimately have "perm itl ! (i div C * C + i mod C) = int (i mod C * R + i div C)"
      using t by blast
    then show "perm itl ! i = int ((i mod C) * R + i div C)" by simp
  }
  {
    assume i: "i < R * C"
    then have R: "0 < R" by (cases R) auto
    have "i div R < C" using i by (simp add: less_mult_imp_div_less mult.commute)
    moreover have "i mod R < R" using R by simp
    ultimately have "inv itl ! (i div R * R + i mod R) = int (i mod R * C + i div R)"
      using t by blast
    then show "inv itl ! i = int ((i mod R) * C + i div R)" by simp
  }
qed

lemma transpose_idx_bound:
  fixes i R C :: nat
  assumes "i < R * C"
  shows "(i mod C) * R + i div C < R * C"
proof -
  have C: "0 < C" using assms by (cases C) auto
  have "i div C < R" using assms by (simp add: less_mult_imp_div_less)
  moreover have "i mod C < C" using C by simp
  ultimately show ?thesis using idx_bound [of "i mod C" C "i div C" R] by (simp add: mult.commute)
qed

lemma transpose_idx_inverse:
  fixes i R C :: nat
  assumes "i < R * C"
  shows "(((i mod C) * R + i div C) mod R) * C + ((i mod C) * R + i div C) div R = i"
proof -
  have C: "0 < C" using assms by (cases C) auto
  have d: "i div C < R" using assms by (simp add: less_mult_imp_div_less)
  have "(i div C + (i mod C) * R) mod R = i div C" using d by simp
  moreover have "(i div C + (i mod C) * R) div R = i mod C" using d by simp
  ultimately show ?thesis by (simp add: add.commute)
qed

lemma scatter_length: "length (foldl (\<lambda>out i. out[f i := g i]) out xs) = length out"
  by (induction xs arbitrary: out) simp_all

lemma scatter_nth:
  assumes "inj_on f {..<k}" "\<forall>i<k. f i < length out"
  shows "\<forall>i<k. foldl (\<lambda>out i. out[f i := g i]) out [0..<k] ! f i = g i"
  using assms
proof (induction k)
  case 0
  then show ?case by simp
next
  case (Suc k)
  let ?o = "foldl (\<lambda>out i. out[f i := g i]) out [0..<k]"
  have inj: "inj_on f {..<k}" using Suc.prems(1) by (rule inj_on_subset) auto
  have ih: "\<forall>i<k. ?o ! f i = g i" using Suc.IH [OF inj] Suc.prems(2) by simp
  show ?case
  proof (intro allI impI)
    fix i assume i: "i < Suc k"
    show "foldl (\<lambda>out i. out[f i := g i]) out [0..<Suc k] ! f i = g i"
    proof (cases "i = k")
      case True
      then show ?thesis using Suc.prems(2) by (simp add: scatter_length)
    next
      case False
      then have ik: "i < k" using i by simp
      have "f i \<noteq> f k" using Suc.prems(1) ik by (auto simp: inj_on_def)
      then show ?thesis using ih ik by simp
    qed
  qed
qed


lemma interleaver_roundtrip_nat:
  assumes init: "interleaver_init (Some p0) (Some i0) (int R) (int C) = Some itl"
    and len: "length p0 = R * C" "length i0 = R * C"
    and x: "length x = R * C" "length out1 = R * C" "length out2 = R * C"
  shows "interleaver_deapply itl (interleaver_apply itl x out1 (int (R * C))) out2 (int (R * C)) = x"
proof -
  let ?N = "R * C"
  let ?f = "\<lambda>i. nat (perm itl ! i)"
  let ?h = "\<lambda>i. nat (inv itl ! i)"
  let ?y = "foldl (\<lambda>out i. out[?f i := x ! i]) out1 [0..<?N]"
  let ?z = "foldl (\<lambda>out i. out[?h i := ?y ! i]) out2 [0..<?N]"
  note t = interleaver_init_tables [OF init len]
  have size: "nat (min (int ?N) (rows itl * cols itl)) = ?N"
    using t by (simp add: nat_mult_distrib)
  have f: "?f i = (i mod C) * R + i div C" if "i < ?N" for i
    using interleaver_init_nth(1) [OF init len that] by (simp del: of_nat_add of_nat_mult)
  have h: "?h i = (i mod R) * C + i div R" if "i < ?N" for i
    using interleaver_init_nth(2) [OF init len that] by (simp del: of_nat_add of_nat_mult)
  have fb: "?f i < ?N" if "i < ?N" for i
    using transpose_idx_bound [OF that] f [OF that] by simp
  have hb: "?h i < ?N" if "i < ?N" for i
    using transpose_idx_bound [of i C R] that h [OF that] by (simp add: mult.commute)
  have hf: "?h (?f i) = i" if "i < ?N" for i
    using transpose_idx_inverse [OF that] h [OF fb [OF that]] f [OF that] by simp
  have fh: "?f (?h i) = i" if "i < ?N" for i
    using transpose_idx_inverse [of i C R] that f [OF hb [OF that]] h [OF that]
    by (simp add: mult.commute)
  have injf: "inj_on ?f {..<?N}"
    by (rule inj_on_inverseI [where g = ?h]) (simp add: hf)
  have injh: "inj_on ?h {..<?N}"
    by (rule inj_on_inverseI [where g = ?f]) (simp add: fh)
  have y: "\<forall>i<?N. ?y ! ?f i = x ! i"
    by (rule scatter_nth [OF injf]) (simp add: fb x)
  have z: "\<forall>i<?N. ?z ! ?h i = ?y ! i"
    by (rule scatter_nth [OF injh]) (simp add: hb x)
  have "?z = x"
  proof (rule nth_equalityI)
    show "length ?z = length x" by (simp add: scatter_length x)
  next
    fix m assume "m < length ?z"
    then have m: "m < ?N" by (simp add: scatter_length x)
    have "?z ! ?h (?f m) = ?y ! ?f m" using z fb [OF m] by blast
    then show "?z ! m = x ! m" using y m hf [OF m] by simp
  qed
  then show ?thesis
    unfolding interleaver_deapply_def interleaver_apply_def Let_def size by simp
qed


lemma burst_separation_nat:
  fixes i j R C :: nat
  assumes "i < j" "j < i + R" "0 < C"
  shows "int C - 1 \<le> \<bar>int ((j mod R) * C + j div R) - int ((i mod R) * C + i div R)\<bar>"
proof -
  define qi ri qj rj where "qi = i div R" and "ri = i mod R" and "qj = j div R" and "rj = j mod R"
  have R: "0 < R" using assms by simp
  have di: "i = qi * R + ri" and dj: "j = qj * R + rj" by (simp_all add: qi_def ri_def qj_def rj_def)
  have mi: "ri < R" and mj: "rj < R" using R by (simp_all add: ri_def rj_def)
  have le: "qi \<le> qj" using assms(1) by (simp add: div_le_mono qi_def qj_def)
  have ub: "qj \<le> Suc qi"
  proof (rule ccontr)
    assume "\<not> qj \<le> Suc qi"
    then have "qi + 2 \<le> qj" by simp
    then have "(qi + 2) * R \<le> qj * R" by (rule mult_le_mono1)
    then have "qi * R + 2 * R \<le> qj * R" by (simp add: algebra_simps)
    then show False using assms(2) di dj mi by linarith
  qed
  consider "qj = qi" | "qj = Suc qi" using le ub by linarith
  then have "int C - 1 \<le> \<bar>int (rj * C + qj) - int (ri * C + qi)\<bar>"
  proof cases
    case 1
    then have "ri < rj" using assms(1) di dj by simp
    then have "Suc ri * C \<le> rj * C" by (intro mult_le_mono1) simp
    then have "ri * C + C \<le> rj * C" by simp
    then show ?thesis using 1 by linarith
  next
    case 2
    have "qj * R = qi * R + R" using 2 by simp
    then have "rj < ri" using assms(2) di dj by linarith
    then have "Suc rj * C \<le> ri * C" by (intro mult_le_mono1) simp
    then have "rj * C + C \<le> ri * C" by simp
    then show ?thesis using 2 by linarith
  qed
  then show ?thesis by (simp add: qi_def ri_def qj_def rj_def)
qed

lemma interleaver_init_inverse:
  assumes init: "interleaver_init (Some p0) (Some i0) (int R) (int C) = Some itl"
    and len: "length p0 = R * C" "length i0 = R * C"
    and i: "i < R * C"
  shows "inv itl ! nat (perm itl ! i) = int i" and "perm itl ! nat (inv itl ! i) = int i"
proof -
  have pn: "perm itl ! k = int ((k mod C) * R + k div C)" if "k < R * C" for k
    using interleaver_init_nth(1) [OF init len that] .
  have qn: "inv itl ! k = int ((k mod R) * C + k div R)" if "k < R * C" for k
    using interleaver_init_nth(2) [OF init len that] .
  have pb: "(i mod C) * R + i div C < R * C"
    using transpose_idx_bound [OF i] .
  have qb: "(i mod R) * C + i div R < R * C"
    using transpose_idx_bound [of i C R] i by (simp add: mult.commute)
  show "inv itl ! nat (perm itl ! i) = int i"
    using transpose_idx_inverse [OF i] qn [OF pb] pn [OF i]
    by (simp del: of_nat_add of_nat_mult)
  show "perm itl ! nat (inv itl ! i) = int i"
    using transpose_idx_inverse [of i C R] i pn [OF qb] qn [OF i]
    by (simp del: of_nat_add of_nat_mult add: mult.commute)
qed

lemma to_nat_dims:
  assumes "0 \<le> rws" "0 \<le> cls"
  shows "rws = int (nat rws)" "cls = int (nat cls)" "nat (rws * cls) = nat rws * nat cls"
  using assms by (simp_all add: nat_mult_distrib)

text \<open>
  Claim C5 (interleaver round trip). For \<open>rows \<ge> 1\<close> and \<open>cols \<ge> 1\<close>, an interleaver that
  \<^verbatim>\<open>interleaver_init\<close> built on two fresh blocks of \<open>rows * cols\<close> entries, and a
  sequence \<open>x\<close> of exactly \<open>rows * cols\<close> elements: \<^verbatim>\<open>interleaver_deapply\<close> applied to
  the result of \<^verbatim>\<open>interleaver_apply\<close> gives back \<open>x\<close>, whatever the two output buffers
  held before.
\<close>

theorem interleaver_roundtrip:
  assumes "1 \<le> rws" "1 \<le> cls"
    and "length p0 = nat (rws * cls)" "length i0 = nat (rws * cls)"
    and "interleaver_init (Some p0) (Some i0) rws cls = Some itl"
    and "int (length x) = rws * cls" "length out1 = length x" "length out2 = length x"
  shows "interleaver_deapply itl (interleaver_apply itl x out1 (rws * cls)) out2 (rws * cls) = x"
proof -
  have nn: "0 \<le> rws" "0 \<le> cls" using assms(1,2) by simp_all
  note d = to_nat_dims [OF nn]
  have lx: "length x = nat rws * nat cls" using assms(6) d(3) by linarith
  have sz: "rws * cls = int (nat rws * nat cls)" using nn by simp
  have init: "interleaver_init (Some p0) (Some i0) (int (nat rws)) (int (nat cls)) = Some itl"
    using assms(5) nn by simp
  show ?thesis
    unfolding sz
    by (rule interleaver_roundtrip_nat [OF init])
      (use assms(3,4,7,8) lx d(3) in simp_all)
qed

text \<open>
  The round trip on a 2 by 3 block, on blocks that held 7s and 9s before the construction.
\<close>

theorem interleaver_roundtrip_witness:
  "interleaver_init (Some [7, 7, 7, 7, 7, 7]) (Some [9, 9, 9, 9, 9, 9]) 2 3
     = Some \<lparr>rows = 2, cols = 3, perm = [0, 2, 4, 1, 3, 5], inv = [0, 3, 1, 4, 2, 5]\<rparr>
   \<and> interleaver_deapply \<lparr>rows = 2, cols = 3, perm = [0, 2, 4, 1, 3, 5], inv = [0, 3, 1, 4, 2, 5]\<rparr>
        (interleaver_apply \<lparr>rows = 2, cols = 3, perm = [0, 2, 4, 1, 3, 5], inv = [0, 3, 1, 4, 2, 5]\<rparr>
           [1, 0, 1, 1, 0, 0 :: nat] [0, 0, 0, 0, 0, 0] (2 * 3)) [0, 0, 0, 0, 0, 0] (2 * 3)
      = [1, 0, 1, 1, 0, 0]"
proof -
  have init: "interleaver_init (Some [7, 7, 7, 7, 7, 7]) (Some [9, 9, 9, 9, 9, 9]) 2 3
     = Some \<lparr>rows = 2, cols = 3, perm = [0, 2, 4, 1, 3, 5], inv = [0, 3, 1, 4, 2, 5]\<rparr>"
    by code_simp
  have "interleaver_deapply \<lparr>rows = 2, cols = 3, perm = [0, 2, 4, 1, 3, 5], inv = [0, 3, 1, 4, 2, 5]\<rparr>
        (interleaver_apply \<lparr>rows = 2, cols = 3, perm = [0, 2, 4, 1, 3, 5], inv = [0, 3, 1, 4, 2, 5]\<rparr>
           [1, 0, 1, 1, 0, 0 :: nat] [0, 0, 0, 0, 0, 0] (2 * 3)) [0, 0, 0, 0, 0, 0] (2 * 3)
      = [1, 0, 1, 1, 0, 0]"
    by (rule interleaver_roundtrip [OF _ _ _ _ init]) simp_all
  with init show ?thesis by (rule conjI)
qed

text \<open>
  Claim C9 (permutation tables). After a successful \<^verbatim>\<open>interleaver_init\<close> with dimensions
  \<open>rows \<ge> 0\<close> and \<open>cols \<ge> 0\<close> on two fresh blocks of \<open>rows * cols\<close> entries, both tables
  have \<open>rows * cols\<close> entries, \<open>perm[r * cols + c] = c * rows + r\<close> and
  \<open>inv[c * rows + r] = r * cols + c\<close> for every row \<open>r\<close> and column \<open>c\<close> of the block, and
  \<open>perm\<close> and \<open>inv\<close> are bijections on \<open>[0, rows * cols)\<close>, each the inverse of the other.
\<close>

theorem interleaver_init_permutation:
  assumes "0 \<le> rws" "0 \<le> cls"
    and "length p0 = nat (rws * cls)" "length i0 = nat (rws * cls)"
    and "interleaver_init (Some p0) (Some i0) rws cls = Some itl"
  shows "length (perm itl) = nat (rws * cls) \<and> length (inv itl) = nat (rws * cls)
    \<and> (\<forall>r c. 0 \<le> r \<and> r < rws \<and> 0 \<le> c \<and> c < cls \<longrightarrow>
          perm itl ! nat (r * cls + c) = c * rws + r \<and> inv itl ! nat (c * rws + r) = r * cls + c)
    \<and> (\<forall>i. 0 \<le> i \<and> i < rws * cls \<longrightarrow>
          0 \<le> perm itl ! nat i \<and> perm itl ! nat i < rws * cls \<and> inv itl ! nat (perm itl ! nat i) = i
        \<and> 0 \<le> inv itl ! nat i \<and> inv itl ! nat i < rws * cls \<and> perm itl ! nat (inv itl ! nat i) = i)
    \<and> bij_betw (\<lambda>i. perm itl ! nat i) {0..<rws * cls} {0..<rws * cls}
    \<and> bij_betw (\<lambda>i. inv itl ! nat i) {0..<rws * cls} {0..<rws * cls}"
proof -
  define R C where "R = nat rws" and "C = nat cls"
  have rc: "rws = int R" "cls = int C" using assms(1,2) by (simp_all add: R_def C_def)
  have sz: "nat (rws * cls) = R * C" by (simp add: rc nat_mult_distrib)
  have init: "interleaver_init (Some p0) (Some i0) (int R) (int C) = Some itl"
    using assms(5) rc by simp
  have len: "length p0 = R * C" "length i0 = R * C" using assms(3,4) sz by simp_all
  note t = interleaver_init_tables [OF init len]
  have pn: "perm itl ! i = int ((i mod C) * R + i div C)" if "i < R * C" for i
    using interleaver_init_nth(1) [OF init len that] .
  have qn: "inv itl ! i = int ((i mod R) * C + i div R)" if "i < R * C" for i
    using interleaver_init_nth(2) [OF init len that] .
  have pb: "(i mod C) * R + i div C < R * C" if "i < R * C" for i
    using transpose_idx_bound [OF that] .
  have qb: "(i mod R) * C + i div R < R * C" if "i < R * C" for i
    using transpose_idx_bound [of i C R] that by (simp add: mult.commute)
  have qp: "inv itl ! nat (perm itl ! i) = int i" if "i < R * C" for i
    using interleaver_init_inverse(1) [OF init len that] .
  have pq: "perm itl ! nat (inv itl ! i) = int i" if "i < R * C" for i
    using interleaver_init_inverse(2) [OF init len that] .
  have cells: "\<forall>r c. 0 \<le> r \<and> r < rws \<and> 0 \<le> c \<and> c < cls \<longrightarrow>
          perm itl ! nat (r * cls + c) = c * rws + r \<and> inv itl ! nat (c * rws + r) = r * cls + c"
  proof (intro allI impI)
    fix r c :: int
    assume h: "0 \<le> r \<and> r < rws \<and> 0 \<le> c \<and> c < cls"
    then have r: "nat r < R" and c: "nat c < C" by (simp_all add: R_def C_def)
    have e1: "nat (r * cls + c) = nat r * C + nat c" and e2: "nat (c * rws + r) = nat c * R + nat r"
      using h assms(1,2) by (simp_all add: R_def C_def nat_add_distrib nat_mult_distrib)
    have "perm itl ! (nat r * C + nat c) = int (nat c * R + nat r)
        \<and> inv itl ! (nat c * R + nat r) = int (nat r * C + nat c)"
      using t r c by blast
    then show "perm itl ! nat (r * cls + c) = c * rws + r \<and> inv itl ! nat (c * rws + r) = r * cls + c"
      unfolding e1 e2 using h by (simp add: rc)
  qed
  have inverse: "\<forall>i. 0 \<le> i \<and> i < rws * cls \<longrightarrow>
          0 \<le> perm itl ! nat i \<and> perm itl ! nat i < rws * cls \<and> inv itl ! nat (perm itl ! nat i) = i
        \<and> 0 \<le> inv itl ! nat i \<and> inv itl ! nat i < rws * cls \<and> perm itl ! nat (inv itl ! nat i) = i"
  proof (intro allI impI)
    fix i :: int
    assume h: "0 \<le> i \<and> i < rws * cls"
    then have i: "nat i < R * C" using sz by linarith
    have sz': "rws * cls = int (R * C)" by (simp add: rc)
    show "0 \<le> perm itl ! nat i \<and> perm itl ! nat i < rws * cls \<and> inv itl ! nat (perm itl ! nat i) = i
        \<and> 0 \<le> inv itl ! nat i \<and> inv itl ! nat i < rws * cls \<and> perm itl ! nat (inv itl ! nat i) = i"
      unfolding sz' using pn [OF i] qn [OF i] pb [OF i] qb [OF i] qp [OF i] pq [OF i] h
      by (simp del: of_nat_add of_nat_mult)
  qed
  have bp: "bij_betw (\<lambda>i. perm itl ! nat i) {0..<rws * cls} {0..<rws * cls}"
    by (rule bij_betw_byWitness [where f' = "\<lambda>i. inv itl ! nat i"]) (use inverse in auto)
  have bq: "bij_betw (\<lambda>i. inv itl ! nat i) {0..<rws * cls} {0..<rws * cls}"
    by (rule bij_betw_byWitness [where f' = "\<lambda>i. perm itl ! nat i"]) (use inverse in auto)
  show ?thesis using t cells inverse bp bq sz by simp
qed

lemma burst_itl_eq: "interleaver_init (Some (replicate 48 0)) (Some (replicate 48 0)) 8 6 = Some burst_itl"
  unfolding burst_itl_def by code_simp


text \<open>
  The tables of the 2 by 3 block, at row 1 and column 2.
\<close>

theorem interleaver_init_permutation_witness:
  "interleaver_init (Some [7, 7, 7, 7, 7, 7]) (Some [9, 9, 9, 9, 9, 9]) 2 3
     = Some \<lparr>rows = 2, cols = 3, perm = [0, 2, 4, 1, 3, 5], inv = [0, 3, 1, 4, 2, 5]\<rparr>
   \<and> perm \<lparr>rows = 2, cols = 3, perm = [0, 2, 4, 1, 3, 5], inv = [0, 3, 1, 4, 2, 5]\<rparr> ! nat (1 * 3 + 2) = 2 * 2 + 1
   \<and> inv \<lparr>rows = 2, cols = 3, perm = [0, 2, 4, 1, 3, 5], inv = [0, 3, 1, 4, 2, 5]\<rparr> ! nat (2 * 2 + 1) = 1 * 3 + 2"
proof -
  have init: "interleaver_init (Some [7, 7, 7, 7, 7, 7]) (Some [9, 9, 9, 9, 9, 9]) 2 3
     = Some \<lparr>rows = 2, cols = 3, perm = [0, 2, 4, 1, 3, 5], inv = [0, 3, 1, 4, 2, 5]\<rparr>"
    by code_simp
  have "\<forall>r c. 0 \<le> r \<and> r < 2 \<and> 0 \<le> c \<and> c < 3 \<longrightarrow>
          perm \<lparr>rows = 2, cols = 3, perm = [0, 2, 4, 1, 3, 5], inv = [0, 3, 1, 4, 2, 5]\<rparr> ! nat (r * 3 + c) = c * 2 + r
        \<and> inv \<lparr>rows = 2, cols = 3, perm = [0, 2, 4, 1, 3, 5], inv = [0, 3, 1, 4, 2, 5]\<rparr> ! nat (c * 2 + r) = r * 3 + c"
    using interleaver_init_permutation [OF _ _ _ _ init] by simp
  then have "0 \<le> (1::int) \<and> (1::int) < 2 \<and> 0 \<le> (2::int) \<and> (2::int) < 3 \<longrightarrow>
          perm \<lparr>rows = 2, cols = 3, perm = [0, 2, 4, 1, 3, 5], inv = [0, 3, 1, 4, 2, 5]\<rparr> ! nat (1 * 3 + 2) = 2 * 2 + 1
        \<and> inv \<lparr>rows = 2, cols = 3, perm = [0, 2, 4, 1, 3, 5], inv = [0, 3, 1, 4, 2, 5]\<rparr> ! nat (2 * 2 + 1) = 1 * 3 + 2"
    by blast
  with init show ?thesis by simp
qed

lemma interleaver_deapply_nth:
  assumes init: "interleaver_init (Some p0) (Some i0) (int R) (int C) = Some itl"
    and len: "length p0 = R * C" "length i0 = R * C"
    and x: "length xs = R * C" "length out = R * C" and i: "i < R * C"
  shows "interleaver_deapply itl xs out (int (R * C)) ! nat (inv itl ! i) = xs ! i"
proof -
  let ?N = "R * C"
  let ?f = "\<lambda>i. nat (perm itl ! i)"
  let ?h = "\<lambda>i. nat (inv itl ! i)"
  note t = interleaver_init_tables [OF init len]
  have size: "nat (min (int ?N) (rows itl * cols itl)) = ?N"
    using t by (simp add: nat_mult_distrib)
  have f: "?f i = (i mod C) * R + i div C" if "i < ?N" for i
    using interleaver_init_nth(1) [OF init len that] by (simp del: of_nat_add of_nat_mult)
  have h: "?h i = (i mod R) * C + i div R" if "i < ?N" for i
    using interleaver_init_nth(2) [OF init len that] by (simp del: of_nat_add of_nat_mult)
  have hb: "?h i < ?N" if "i < ?N" for i
    using transpose_idx_bound [of i C R] that h [OF that] by (simp add: mult.commute)
  have fh: "?f (?h i) = i" if "i < ?N" for i
    using transpose_idx_inverse [of i C R] that f [OF hb [OF that]] h [OF that]
    by (simp add: mult.commute)
  have injh: "inj_on ?h {..<?N}"
    by (rule inj_on_inverseI [where g = ?f]) (simp add: fh)
  have "\<forall>i<?N. foldl (\<lambda>out i. out[?h i := xs ! i]) out [0..<?N] ! ?h i = xs ! i"
    by (rule scatter_nth [OF injh]) (simp add: hb x)
  then show ?thesis
    unfolding interleaver_deapply_def Let_def size using i by simp
qed

text \<open>
  Claim C6 (burst dispersion), as amended. For an interleaver with \<open>rows \<ge> 1\<close> and
  \<open>cols \<ge> 1\<close>, two positions \<open>i < j\<close> of the interleaved domain that lie in one contiguous
  run of at most \<open>rows\<close> positions (\<open>j < i + rows\<close>): \<^verbatim>\<open>interleaver_deapply\<close> moves them to
  the positions \<open>inv[i]\<close> and \<open>inv[j]\<close> of the original order, these are distinct, and they
  are at least \<open>cols - 1\<close> apart. The separation is governed by the number of columns, not
  by the number of rows.
\<close>

theorem burst_dispersion_cols:
  assumes "1 \<le> rws" "1 \<le> cls"
    and "length p0 = nat (rws * cls)" "length i0 = nat (rws * cls)"
    and "interleaver_init (Some p0) (Some i0) rws cls = Some itl"
    and "0 \<le> i" "i < j" "j < rws * cls" "j < i + rws"
    and "int (length xs) = rws * cls" "length out = length xs"
  shows "interleaver_deapply itl xs out (rws * cls) ! nat (inv itl ! nat i) = xs ! nat i
    \<and> interleaver_deapply itl xs out (rws * cls) ! nat (inv itl ! nat j) = xs ! nat j
    \<and> inv itl ! nat i \<noteq> inv itl ! nat j
    \<and> cls - 1 \<le> \<bar>inv itl ! nat j - inv itl ! nat i\<bar>"
proof -
  define R C where "R = nat rws" and "C = nat cls"
  have rc: "rws = int R" "cls = int C" using assms(1,2) by (simp_all add: R_def C_def)
  have sz: "nat (rws * cls) = R * C" and sz': "rws * cls = int (R * C)"
    by (simp_all add: rc nat_mult_distrib)
  have init: "interleaver_init (Some p0) (Some i0) (int R) (int C) = Some itl"
    using assms(5) rc by simp
  have len: "length p0 = R * C" "length i0 = R * C" using assms(3,4) sz by simp_all
  have "int (length xs) = int (R * C)" using assms(10) sz' by simp
  then have lx: "length xs = R * C" "length out = R * C" using assms(11) by (simp_all only: of_nat_eq_iff)
  have i: "nat i < R * C" and j: "nat j < R * C" using assms(6,7,8) sz' by linarith+
  have lt: "nat i < nat j" "nat j < nat i + R" "0 < C"
    using assms(1,2,6,7,9) by (simp_all add: R_def C_def)
  have qi: "inv itl ! nat i = int ((nat i mod R) * C + nat i div R)"
    using interleaver_init_nth(2) [OF init len i] .
  have qj: "inv itl ! nat j = int ((nat j mod R) * C + nat j div R)"
    using interleaver_init_nth(2) [OF init len j] .
  have sep: "cls - 1 \<le> \<bar>inv itl ! nat j - inv itl ! nat i\<bar>"
    unfolding qi qj rc by (rule burst_separation_nat [OF lt])
  have inverse: "perm itl ! nat (inv itl ! nat i) = i" "perm itl ! nat (inv itl ! nat j) = j"
    using interleaver_init_inverse(2) [OF init len i] interleaver_init_inverse(2) [OF init len j]
      assms(6,7) by simp_all
  have ne: "inv itl ! nat i \<noteq> inv itl ! nat j"
    using inverse assms(7) by auto
  show ?thesis
    unfolding sz'
    using interleaver_deapply_nth [OF init len lx i] interleaver_deapply_nth [OF init len lx j] ne sep
    by simp
qed

text \<open>
  Claim C6 as stated fails in its own scenario. With 8 rows and 6 columns, a burst on the
  interleaved positions 0 to 5 lands on the original positions 0, 6, 12, 18, 24 and 30: the
  interleaved neighbours 0 and 1 come out 6 apart, which is less than \<open>rows - 1 = 7\<close>.
\<close>

theorem burst_dispersion_counterexample:
  "interleaver_init (Some (replicate 48 0)) (Some (replicate 48 0)) 8 6 = Some burst_itl
   \<and> interleaver_deapply burst_itl (replicate 6 1 @ replicate 42 0) (replicate 48 (0::nat)) 48
       = [1, 0, 0, 0, 0, 0, 1, 0, 0, 0, 0, 0, 1, 0, 0, 0, 0, 0, 1, 0, 0, 0, 0, 0,
          1, 0, 0, 0, 0, 0, 1, 0, 0, 0, 0, 0, 0, 0, 0, 0, 0, 0, 0, 0, 0, 0, 0, 0]
   \<and> \<not> (8 - 1 \<le> \<bar>inv burst_itl ! 1 - inv burst_itl ! 0\<bar>)"
proof -
  have "interleaver_deapply burst_itl (replicate 6 1 @ replicate 42 0) (replicate 48 (0::nat)) 48
       = [1, 0, 0, 0, 0, 0, 1, 0, 0, 0, 0, 0, 1, 0, 0, 0, 0, 0, 1, 0, 0, 0, 0, 0,
          1, 0, 0, 0, 0, 0, 1, 0, 0, 0, 0, 0, 0, 0, 0, 0, 0, 0, 0, 0, 0, 0, 0, 0]"
    unfolding burst_itl_def by code_simp
  moreover have "\<not> (8 - 1 \<le> \<bar>inv burst_itl ! 1 - inv burst_itl ! 0\<bar>)"
    unfolding burst_itl_def by simp
  ultimately show ?thesis using burst_itl_eq by simp
qed

text \<open>
  The amended claim in the scenario, at the interleaved positions 7 and 8 (the end of column 0
  and the start of column 1).
\<close>

theorem burst_dispersion_cols_witness:
  "interleaver_deapply burst_itl (replicate 6 1 @ replicate 42 0) (replicate 48 (0::nat)) (8 * 6)
       ! nat (inv burst_itl ! nat 7) = (replicate 6 1 @ replicate 42 0) ! nat 7
   \<and> interleaver_deapply burst_itl (replicate 6 1 @ replicate 42 0) (replicate 48 (0::nat)) (8 * 6)
       ! nat (inv burst_itl ! nat 8) = (replicate 6 1 @ replicate 42 0) ! nat 8
   \<and> inv burst_itl ! nat 7 \<noteq> inv burst_itl ! nat 8
   \<and> 6 - 1 \<le> \<bar>inv burst_itl ! nat 8 - inv burst_itl ! nat 7\<bar>"
  by (rule burst_dispersion_cols [OF _ _ _ _ burst_itl_eq]) simp_all

section \<open>One time step of the decoders, entry by entry\<close>

lemma CONV_STATES_64: "CONV_STATES = 64"
  by (simp add: CONV_STATES_def CONV_K_def)

lemma full_state_eq: "b < 2 \<Longrightarrow> push_bit 1 s OR b = 2 * s + (b::nat)"
proof -
  assume "b < 2"
  then consider "b = 0" | "b = 1" by linarith
  then show ?thesis
  proof cases
    case 1
    then show ?thesis by (simp add: push_bit_eq_mult)
  next
    case 2
    have "push_bit 1 s OR (1::nat) = 2 * s + 1"
      unfolding or_one_eq push_bit_eq_mult by simp
    then show ?thesis using 2 by (simp only:)
  qed
qed

lemma upt_0_2: "[0..<2] = [0, 1::nat]"
  by code_simp

lemma and_63: "(x::nat) AND 63 = x mod 64"
proof -
  have "(63::nat) = mask 6" by (simp add: mask_eq_exp_minus_1)
  then have "x AND 63 = take_bit 6 x" by (simp only: take_bit_eq_mask)
  then show ?thesis by (simp add: take_bit_eq_mod)
qed

lemma acs_branch_eq:
  assumes "b < 2"
  shows "acs_branch mf pm s acc b =
     (if cand mf pm s b < fst acc ! ((2 * s + b) mod 64)
      then ((fst acc)[(2 * s + b) mod 64 := cand mf pm s b], (snd acc)[(2 * s + b) mod 64 := Some s])
      else acc)"
proof -
  have c: "CONV_STATES - 1 = 63" by (simp add: CONV_STATES_64)
  show ?thesis
    unfolding acs_branch_def Let_def cand_def enc_bit0_def enc_bit1_def full_state_eq [OF assms] c and_63
    by (rule refl)
qed

lemma acs_branch_length:
  "length (fst (acs_branch mf pm s acc b)) = length (fst acc)"
  "length (snd (acs_branch mf pm s acc b)) = length (snd acc)"
  by (simp_all add: acs_branch_def Let_def)

lemma acs_state_length:
  "length (fst (acs_state mf pm acc s)) = length (fst acc)"
  "length (snd (acs_state mf pm acc s)) = length (snd acc)"
  by (simp_all add: acs_state_def acs_branch_length upt_0_2)

lemma entry_branch:
  assumes "b < 2" "ns < 64" "length (fst acc) = 64" "length (snd acc) = 64"
  shows "entry (acs_branch mf pm s acc b) ns =
     (if (2 * s + b) mod 64 = ns
      then (if cand mf pm s b < fst (entry acc ns) then (cand mf pm s b, Some s) else entry acc ns)
      else entry acc ns)"
  unfolding acs_branch_eq [OF assms(1)] entry_def using assms(2-4) by simp

lemma mod64_split:
  fixes s b :: nat
  assumes "b < 2"
  shows "(2 * s + b) mod 64 = 2 * (s mod 32) + b"
proof -
  have "s = 32 * (s div 32) + s mod 32" by simp
  then have "2 * s + b = 64 * (s div 32) + (2 * (s mod 32) + b)" by linarith
  moreover have "2 * (s mod 32) + b < 64"
  proof -
    have "s mod 32 < 32" by simp
    then show ?thesis using assms by linarith
  qed
  ultimately show ?thesis by (metis mod_less mod_mult_self4)
qed

lemma two_r_b:
  fixes r b ns :: nat
  assumes "b < 2"
  shows "(2 * r + b = ns) \<longleftrightarrow> (r = ns div 2 \<and> b = ns mod 2)"
proof
  assume "2 * r + b = ns"
  then have "ns div 2 = r" "ns mod 2 = b" using assms by auto
  then show "r = ns div 2 \<and> b = ns mod 2" by simp
next
  assume "r = ns div 2 \<and> b = ns mod 2"
  then show "2 * r + b = ns" by simp
qed

lemma pred_iff:
  fixes s b ns :: nat
  assumes "b < 2"
  shows "(2 * s + b) mod 64 = ns \<longleftrightarrow> s mod 32 = ns div 2 \<and> b = ns mod 2"
  unfolding mod64_split [OF assms] by (rule two_r_b [OF assms])

lemma pred_iff0: "(2 * s) mod 64 = ns \<longleftrightarrow> s mod 32 = ns div 2 \<and> ns mod 2 = 0" for s ns :: nat
  using pred_iff [of 0 s ns] by auto

lemma pred_iff1: "Suc (2 * s) mod 64 = ns \<longleftrightarrow> s mod 32 = ns div 2 \<and> ns mod 2 = Suc 0" for s ns :: nat
  using pred_iff [of "Suc 0" s ns] by auto

lemma entry_state:
  assumes "ns < 64" "length (fst acc) = 64" "length (snd acc) = 64"
  shows "entry (acs_state mf pm acc s) ns =
     (if s mod 32 = ns div 2 then upd mf pm ns (entry acc ns) s else entry acc ns)"
proof (cases "pm ! s \<ge> VITERBI_INF")
  case True
  then show ?thesis by (simp add: acs_state_def upd_def)
next
  case False
  let ?a0 = "acs_branch mf pm s acc 0"
  have st: "acs_state mf pm acc s = acs_branch mf pm s ?a0 (Suc 0)"
    using False by (simp add: acs_state_def upt_0_2)
  have l0: "length (fst ?a0) = 64" "length (snd ?a0) = 64"
    using assms by (simp_all add: acs_branch_length)
  have e0: "entry ?a0 ns =
     (if s mod 32 = ns div 2 \<and> ns mod 2 = 0
      then (if cand mf pm s 0 < fst (entry acc ns) then (cand mf pm s 0, Some s) else entry acc ns)
      else entry acc ns)"
    using entry_branch [of 0 ns acc mf pm s] assms by (simp add: pred_iff0)
  have e1: "entry (acs_branch mf pm s ?a0 (Suc 0)) ns =
     (if s mod 32 = ns div 2 \<and> ns mod 2 = Suc 0
      then (if cand mf pm s (Suc 0) < fst (entry ?a0 ns) then (cand mf pm s (Suc 0), Some s) else entry ?a0 ns)
      else entry ?a0 ns)"
    using entry_branch [of "Suc 0" ns ?a0 mf pm s] assms(1) l0 by (simp add: pred_iff1)
  consider "ns mod 2 = 0" | "ns mod 2 = Suc 0" by linarith
  then show ?thesis
  proof cases
    case 1
    then show ?thesis unfolding st e1 e0 upd_def using False by simp
  next
    case 2
    then show ?thesis unfolding st e1 e0 upd_def using False by simp
  qed
qed

lemma acs_fold_length:
  "length (fst (foldl (acs_state mf pm) acc xs)) = length (fst acc)"
  "length (snd (foldl (acs_state mf pm) acc xs)) = length (snd acc)"
  by (induction xs arbitrary: acc) (simp_all add: acs_state_length)

lemma entry_fold:
  assumes "ns < 64" "length (fst acc) = 64" "length (snd acc) = 64"
  shows "entry (foldl (acs_state mf pm) acc xs) ns =
     foldl (\<lambda>e s. if s mod 32 = ns div 2 then upd mf pm ns e s else e) (entry acc ns) xs"
  using assms(2,3)
proof (induction xs arbitrary: acc)
  case Nil
  then show ?case by simp
next
  case (Cons s xs)
  have "length (fst (acs_state mf pm acc s)) = 64" "length (snd (acs_state mf pm acc s)) = 64"
    using Cons.prems by (simp_all add: acs_state_length)
  from Cons.IH [OF this] show ?case
    by (simp add: entry_state [OF assms(1) Cons.prems])
qed

lemma fold_skip:
  assumes "\<forall>s \<in> set xs. s mod 32 \<noteq> p"
  shows "foldl (\<lambda>e s. if s mod 32 = p then f e s else e) e xs = e"
  using assms by (induction xs arbitrary: e) simp_all

lemma upt_split_pred:
  assumes "p < 32"
  shows "[0..<64] = [0..<p] @ p # [Suc p..<p + 32] @ (p + 32) # [Suc (p + 32)..<64]"
proof -
  have a: "[0..<p + 32] = [0..<p] @ [p..<p + 32]"
    by (rule upt_add_eq_append) simp
  have "[0..<(p + 32) + (32 - p)] = [0..<p + 32] @ [p + 32..<(p + 32) + (32 - p)]"
    by (rule upt_add_eq_append) simp
  moreover have "(p + 32) + (32 - p) = 64" using assms by simp
  ultimately have "[0..<64] = [0..<p] @ [p..<p + 32] @ [p + 32..<64]"
    using a by simp
  moreover have "[p..<p + 32] = p # [Suc p..<p + 32]" by (simp add: upt_conv_Cons)
  moreover have "[p + 32..<64] = (p + 32) # [Suc (p + 32)..<64]"
    using assms by (simp add: upt_conv_Cons)
  ultimately show ?thesis by simp
qed

lemma mod32_cases:
  fixes s p :: nat
  assumes "p < 32" "s < 64" "s mod 32 = p"
  shows "s = p \<or> s = p + 32"
proof -
  have "s = 32 * (s div 32) + s mod 32" by simp
  moreover have "s div 32 < 2" using assms(2) by simp
  then have "s div 32 = 0 \<or> s div 32 = 1" by linarith
  ultimately show ?thesis using assms(3) by auto
qed

lemma entry_step:
  assumes "ns < 64"
  shows "entry (acs_step mf pm) ns =
     upd mf pm ns (upd mf pm ns (VITERBI_INF, None) (ns div 2)) (ns div 2 + 32)"
proof -
  let ?p = "ns div 2"
  let ?g = "\<lambda>e s. if s mod 32 = ?p then upd mf pm ns e s else e"
  have p: "?p < 32" using assms by simp
  have init: "entry (replicate 64 VITERBI_INF, replicate 64 None) ns = (VITERBI_INF, None)"
    using assms by (simp add: entry_def)
  have fold: "entry (acs_step mf pm) ns = foldl ?g (VITERBI_INF, None) [0..<64]"
    unfolding acs_step_def CONV_STATES_64
    using entry_fold [of ns "(replicate 64 VITERBI_INF, replicate 64 None)" mf pm "[0..<64]"] assms
    by (simp add: init)
  have s1: "\<forall>s \<in> set [0..<?p]. s mod 32 \<noteq> ?p" using p by auto
  have s2: "\<forall>s \<in> set [Suc ?p..<?p + 32]. s mod 32 \<noteq> ?p"
  proof
    fix s assume "s \<in> set [Suc ?p..<?p + 32]"
    then have b: "?p < s" "s < ?p + 32" by simp_all
    then have "s < 64" using p by simp
    from mod32_cases [OF p this] b show "s mod 32 \<noteq> ?p" by auto
  qed
  have s3: "\<forall>s \<in> set [Suc (?p + 32)..<64]. s mod 32 \<noteq> ?p"
  proof
    fix s assume "s \<in> set [Suc (?p + 32)..<64]"
    then have b: "?p + 32 < s" "s < 64" by simp_all
    from mod32_cases [OF p b(2)] b show "s mod 32 \<noteq> ?p" by auto
  qed
  have m: "(?p + 32) mod 32 = ?p" "?p mod 32 = ?p" using p by simp_all
  show ?thesis
    unfolding fold upt_split_pred [OF p] foldl_append foldl_Cons
      fold_skip [where f = "upd mf pm ns", OF s1]
    unfolding fold_skip [where f = "upd mf pm ns", OF s2] m if_True
    unfolding fold_skip [where f = "upd mf pm ns", OF s3] m if_True
    by simp
qed

lemma acs_step_length:
  "length (fst (acs_step mf pm)) = 64" "length (snd (acs_step mf pm)) = 64"
  by (simp_all add: acs_step_def acs_fold_length CONV_STATES_64)

lemma best_fold:
  fixes pm :: "real list"
  assumes "1 \<le> k"
  shows "foldl (\<lambda>best s. if pm ! s < pm ! best then s else best) 0 [1..<k] < k
    \<and> (\<forall>s<k. pm ! foldl (\<lambda>best s. if pm ! s < pm ! best then s else best) 0 [1..<k] \<le> pm ! s)
    \<and> (\<forall>s<foldl (\<lambda>best s. if pm ! s < pm ! best then s else best) 0 [1..<k].
          pm ! foldl (\<lambda>best s. if pm ! s < pm ! best then s else best) 0 [1..<k] < pm ! s)"
  using assms
proof (induction k)
  case 0
  then show ?case by simp
next
  case (Suc k)
  show ?case
  proof (cases "k = 0")
    case True
    then show ?thesis by simp
  next
    case False
    then have k: "1 \<le> k" by simp
    define b where "b = foldl (\<lambda>best s. if pm ! s < pm ! best then s else best) 0 [1..<k]"
    have ih: "b < k" "\<forall>s<k. pm ! b \<le> pm ! s" "\<forall>s<b. pm ! b < pm ! s"
      using Suc.IH [OF k] by (simp_all add: b_def)
    have step: "foldl (\<lambda>best s. if pm ! s < pm ! best then s else best) 0 [1..<Suc k]
        = (if pm ! k < pm ! b then k else b)"
      using k by (simp add: b_def)
    show ?thesis
    proof (cases "pm ! k < pm ! b")
      case True
      have "\<forall>s<Suc k. pm ! k \<le> pm ! s"
        using True ih(2) by (auto simp: less_Suc_eq intro: less_imp_le order.trans)
      moreover have "\<forall>s<k. pm ! k < pm ! s"
        using True ih(2) by (auto intro: less_le_trans)
      ultimately show ?thesis unfolding step using True by simp
    next
      case False
      have "\<forall>s<Suc k. pm ! b \<le> pm ! s"
        using False ih(2) by (auto simp: less_Suc_eq)
      then show ?thesis unfolding step using False ih by simp
    qed
  qed
qed

lemma best_state_min:
  "best_state pm < 64"
  "s < 64 \<Longrightarrow> pm ! best_state pm \<le> pm ! s"
  "s < best_state pm \<Longrightarrow> pm ! best_state pm < pm ! s"
  using best_fold [of 64 pm] by (simp_all add: best_state_def CONV_STATES_64)

lemma forward_snoc:
  "forward (mfs @ [mf]) pm =
     (fst (acs_step mf (fst (forward mfs pm))), snd (forward mfs pm) @ [snd (acs_step mf (fst (forward mfs pm)))])"
  by (induction mfs arbitrary: pm) (simp_all add: Let_def)

lemma upd_cases:
  "upd mf pm ns e s = e \<or> (pm ! s < VITERBI_INF \<and> upd mf pm ns e s = (cand mf pm s (ns mod 2), Some s))"
  by (simp add: upd_def)

lemma upd_le: "fst (upd mf pm ns e s) \<le> fst e"
  by (simp add: upd_def)

lemma upd_le_cand: "pm ! s < VITERBI_INF \<Longrightarrow> fst (upd mf pm ns e s) \<le> cand mf pm s (ns mod 2)"
  by (simp add: upd_def)

lemma entry_step_cases:
  assumes "ns < 64"
  shows "entry (acs_step mf pm) ns = (VITERBI_INF, None)
    \<or> (\<exists>p<64. p mod 32 = ns div 2 \<and> pm ! p < VITERBI_INF
          \<and> entry (acs_step mf pm) ns = (cand mf pm p (ns mod 2), Some p))"
proof -
  let ?p0 = "ns div 2" and ?p1 = "ns div 2 + 32"
  let ?e1 = "upd mf pm ns (VITERBI_INF, None) ?p0"
  have p: "?p0 < 64" "?p1 < 64" "?p0 mod 32 = ns div 2" "?p1 mod 32 = ns div 2"
    using assms by simp_all
  from upd_cases [of mf pm ns "(VITERBI_INF, None)" ?p0] upd_cases [of mf pm ns ?e1 ?p1]
  show ?thesis unfolding entry_step [OF assms] using p by metis
qed

lemma entry_step_le:
  assumes "ns < 64" "p < 64" "p mod 32 = ns div 2" "pm ! p < VITERBI_INF"
  shows "fst (entry (acs_step mf pm) ns) \<le> cand mf pm p (ns mod 2)"
proof -
  let ?p0 = "ns div 2" and ?p1 = "ns div 2 + 32"
  let ?e1 = "upd mf pm ns (VITERBI_INF, None) ?p0"
  have "?p0 < 32" using assms(1) by simp
  from mod32_cases [OF this assms(2,3)] consider "p = ?p0" | "p = ?p1" by blast
  then show ?thesis
  proof cases
    case 1
    have "fst (upd mf pm ns ?e1 ?p1) \<le> fst ?e1" by (rule upd_le)
    also have "\<dots> \<le> cand mf pm ?p0 (ns mod 2)" using assms(4) 1 by (intro upd_le_cand) simp
    finally show ?thesis unfolding entry_step [OF assms(1)] using 1 by simp
  next
    case 2
    have "fst (upd mf pm ns ?e1 ?p1) \<le> cand mf pm ?p1 (ns mod 2)"
      using assms(4) 2 by (intro upd_le_cand) simp
    then show ?thesis unfolding entry_step [OF assms(1)] using 2 by simp
  qed
qed

section \<open>The hard-decision decoder always returns\<close>

lemma hard_cand_bounds:
  assumes "is_hard mf"
  shows "pm ! s \<le> cand mf pm s b" "cand mf pm s b \<le> pm ! s + 2"
  using assms by (auto simp: is_hard_def cand_def hard_metric_def)

lemma rows_valid:
  assumes "ns < 64" "fst (acs_step mf pm) ! ns < VITERBI_INF"
  shows "\<exists>p<64. snd (acs_step mf pm) ! ns = Some p \<and> pm ! p < VITERBI_INF"
  using entry_step_cases [OF assms(1), of mf pm] assms(2) by (auto simp: entry_def)

lemma reach_step:
  assumes "reach B pm" "is_hard mf" "B + 2 < VITERBI_INF"
  shows "reach (B + 2) (fst (acs_step mf pm))"
  unfolding reach_def
proof (intro conjI allI impI)
  show "length (fst (acs_step mf pm)) = 64" by (rule acs_step_length)
next
  fix ns :: nat assume ns: "ns < 64"
  from entry_step_cases [OF ns, of mf pm]
  show "fst (acs_step mf pm) ! ns = VITERBI_INF
      \<or> (0 \<le> fst (acs_step mf pm) ! ns \<and> fst (acs_step mf pm) ! ns \<le> B + 2)"
  proof
    assume "entry (acs_step mf pm) ns = (VITERBI_INF, None)"
    then show ?thesis by (simp add: entry_def)
  next
    assume "\<exists>p<64. p mod 32 = ns div 2 \<and> pm ! p < VITERBI_INF
          \<and> entry (acs_step mf pm) ns = (cand mf pm p (ns mod 2), Some p)"
    then obtain p where p: "p < 64" "pm ! p < VITERBI_INF"
      and e: "entry (acs_step mf pm) ns = (cand mf pm p (ns mod 2), Some p)" by blast
    have "0 \<le> pm ! p \<and> pm ! p \<le> B" using assms(1) p unfolding reach_def by auto
    then have "0 \<le> cand mf pm p (ns mod 2) \<and> cand mf pm p (ns mod 2) \<le> B + 2"
      using hard_cand_bounds [OF assms(2), of pm p "ns mod 2"] by linarith
    then show ?thesis using e by (simp add: entry_def)
  qed
next
  obtain s where s: "s < 64" "pm ! s < VITERBI_INF" using assms(1) unfolding reach_def by blast
  let ?ns = "(2 * s) mod 64"
  have ns: "?ns < 64" by simp
  have pr: "s mod 32 = ?ns div 2" "?ns mod 2 = 0" using pred_iff0 [of s ?ns] by simp_all
  have "pm ! s \<le> B" using assms(1) s unfolding reach_def by auto
  then have "cand mf pm s (?ns mod 2) < VITERBI_INF"
    using hard_cand_bounds(2) [OF assms(2), of pm s "?ns mod 2"] assms(3) by linarith
  moreover have "fst (entry (acs_step mf pm) ?ns) \<le> cand mf pm s (?ns mod 2)"
    by (rule entry_step_le [OF ns s(1) pr(1) s(2)])
  ultimately have "fst (acs_step mf pm) ! ?ns < VITERBI_INF" by (simp add: entry_def)
  then show "\<exists>s<64. fst (acs_step mf pm) ! s < VITERBI_INF" using ns by blast
qed

lemma reach_init: "reach 0 pm_init"
  unfolding reach_def pm_init_def CONV_STATES_64
proof (intro conjI allI impI)
  show "\<exists>s<64. (replicate 64 VITERBI_INF)[0 := 0] ! s < VITERBI_INF"
    by (rule exI [of _ 0]) (simp add: VITERBI_INF_def)
next
  fix s :: nat assume "s < 64"
  then show "(replicate 64 VITERBI_INF)[0 := 0] ! s = VITERBI_INF
      \<or> (0 \<le> (replicate 64 VITERBI_INF)[0 := 0] ! s \<and> (replicate 64 VITERBI_INF)[0 := 0] ! s \<le> 0)"
    by (cases "s = 0") simp_all
qed simp

lemma forward_traceable:
  assumes "\<forall>mf \<in> set mfs. is_hard mf" "length mfs \<le> 256"
  shows "reach (2 * real (length mfs)) (fst (forward mfs pm_init))
    \<and> (\<forall>s<64. fst (forward mfs pm_init) ! s < VITERBI_INF \<longrightarrow>
          (\<forall>acc. \<exists>bits. length bits = length mfs
              \<and> traceback (rev (snd (forward mfs pm_init))) s acc = Some (bits @ acc)))"
  using assms
proof (induction mfs rule: rev_induct)
  case Nil
  then show ?case by (simp add: reach_init)
next
  case (snoc mf mfs)
  let ?fw = "forward mfs pm_init"
  let ?st = "acs_step mf (fst ?fw)"
  have hard: "is_hard mf" and len: "length mfs \<le> 256" using snoc.prems by simp_all
  have ih: "reach (2 * real (length mfs)) (fst ?fw)"
    "\<forall>s<64. fst ?fw ! s < VITERBI_INF \<longrightarrow>
          (\<forall>acc. \<exists>bits. length bits = length mfs \<and> traceback (rev (snd ?fw)) s acc = Some (bits @ acc))"
    using snoc.IH snoc.prems by simp_all
  have bound: "2 * real (length mfs) + 2 < VITERBI_INF"
  proof -
    have "real (length mfs) \<le> 256" using len by simp
    then show ?thesis by (simp add: VITERBI_INF_def)
  qed
  have r: "reach (2 * real (length (mfs @ [mf]))) (fst (forward (mfs @ [mf]) pm_init))"
    using reach_step [OF ih(1) hard bound] by (simp add: forward_snoc algebra_simps)
  have t: "\<forall>s<64. fst (forward (mfs @ [mf]) pm_init) ! s < VITERBI_INF \<longrightarrow>
          (\<forall>acc. \<exists>bits. length bits = length (mfs @ [mf])
              \<and> traceback (rev (snd (forward (mfs @ [mf]) pm_init))) s acc = Some (bits @ acc))"
  proof (intro allI impI)
    fix s :: nat and acc :: "nat list"
    assume s: "s < 64" and fin: "fst (forward (mfs @ [mf]) pm_init) ! s < VITERBI_INF"
    then have "fst ?st ! s < VITERBI_INF" by (simp add: forward_snoc)
    from rows_valid [OF s this] obtain p where p: "p < 64" "snd ?st ! s = Some p"
      "fst ?fw ! p < VITERBI_INF" by blast
    let ?acc = "(drop_bit (CONV_K - 2) s AND 1) # acc"
    from ih(2) p obtain bits where b: "length bits = length mfs"
      "traceback (rev (snd ?fw)) p ?acc = Some (bits @ ?acc)" by blast
    have "traceback (rev (snd (forward (mfs @ [mf]) pm_init))) s acc
        = Some ((bits @ [drop_bit (CONV_K - 2) s AND 1]) @ acc)"
      using p(2) b(2) by (simp add: forward_snoc)
    moreover have "length (bits @ [drop_bit (CONV_K - 2) s AND 1]) = length (mfs @ [mf])"
      using b(1) by simp
    ultimately show "\<exists>bits. length bits = length (mfs @ [mf])
        \<and> traceback (rev (snd (forward (mfs @ [mf]) pm_init))) s acc = Some (bits @ acc)"
      by blast
  qed
  from r t show ?case by blast
qed

lemma viterbi_run_hard_total:
  assumes "\<forall>mf \<in> set mfs. is_hard mf" "length mfs \<le> 256"
  shows "\<exists>decoded. viterbi_run mfs = Some (int (length mfs), decoded) \<and> length decoded = length mfs"
proof -
  let ?fw = "forward mfs pm_init"
  note f = forward_traceable [OF assms]
  from f obtain s where s: "s < 64" "fst ?fw ! s < VITERBI_INF" unfolding reach_def by blast
  have bs: "best_state (fst ?fw) < 64" by (rule best_state_min(1))
  have "fst ?fw ! best_state (fst ?fw) \<le> fst ?fw ! s" by (rule best_state_min(2) [OF s(1)])
  then have "fst ?fw ! best_state (fst ?fw) < VITERBI_INF" using s(2) by simp
  with f bs obtain bits where "length bits = length mfs"
    "traceback (rev (snd ?fw)) (best_state (fst ?fw)) [] = Some (bits @ [])" by blast
  then show ?thesis by (simp add: viterbi_run_def Let_def)
qed

lemma hard_metrics_hard:
  "\<forall>mf \<in> set (map (\<lambda>t. hard_metric (coded ! (2 * t) AND 1) (coded ! (2 * t + 1) AND 1)) [0..<n]). is_hard mf"
  by (auto simp: is_hard_def)

lemma viterbi_decode_total:
  "\<exists>decoded. viterbi_decode coded = Some (int (min (length coded div 2) 256), decoded)
     \<and> length decoded = min (length coded div 2) 256"
proof (cases "length coded div 2 < 1")
  case True
  then show ?thesis by (simp add: viterbi_decode_def)
next
  case False
  let ?n = "if length coded div 2 < 256 then length coded div 2 else 256"
  let ?mfs = "map (\<lambda>t. hard_metric (coded ! (2 * t) AND 1) (coded ! (2 * t + 1) AND 1)) [0..<?n]"
  have n: "?n = min (length coded div 2) 256" by simp
  have "length ?mfs \<le> 256" by simp
  from viterbi_run_hard_total [OF hard_metrics_hard this]
  obtain decoded where "viterbi_run ?mfs = Some (int (length ?mfs), decoded)" "length decoded = length ?mfs"
    by blast
  then show ?thesis using False unfolding viterbi_decode_def Let_def n by simp
qed

section \<open>Length, truncation and the start of the traceback\<close>

text \<open>
  Claim C3 (decoded length), as amended. For every coded input of even length
  \<open>nCoded \<ge> 2\<close>, \<^verbatim>\<open>viterbi_decode\<close> returns the smaller of \<open>nCoded / 2\<close> and 256, and
  writes exactly that many decoded bits; it never reads an entry of \<^verbatim>\<open>path\<close> that was not
  written.
\<close>

theorem viterbi_decode_length:
  assumes "even (length coded)" "2 \<le> length coded"
  shows "\<exists>decoded. viterbi_decode coded = Some (int (min (length coded div 2) 256), decoded)
     \<and> length decoded = min (length coded div 2) 256"
  by (rule viterbi_decode_total)

text \<open>
  The decoded length on four coded bits.
\<close>

theorem viterbi_decode_length_witness:
  "\<exists>decoded. viterbi_decode [1, 1, 0, 1] = Some (int (min (length [1, 1, 0, 1 :: nat] div 2) 256), decoded)
     \<and> length decoded = min (length [1, 1, 0, 1 :: nat] div 2) 256"
  by (rule viterbi_decode_length) simp_all

text \<open>
  Claim C3 as stated fails beyond the capacity: on 514 coded bits the decoder returns 256 and
  writes 256 bits, not \<open>514 / 2 = 257\<close>.
\<close>

theorem viterbi_decode_length_counterexample:
  "even (length (replicate 514 (0::nat))) \<and> 2 \<le> length (replicate 514 (0::nat))
   \<and> map_option fst (viterbi_decode (replicate 514 0)) = Some 256
   \<and> map_option fst (viterbi_decode (replicate 514 0)) \<noteq> Some (int (length (replicate 514 (0::nat)) div 2))
   \<and> map_option (\<lambda>r. int (length (snd r))) (viterbi_decode (replicate 514 0)) = Some 256"
proof -
  obtain decoded where "viterbi_decode (replicate 514 0) = Some (int (min (length (replicate 514 (0::nat)) div 2) 256), decoded)"
    "length decoded = min (length (replicate 514 (0::nat)) div 2) 256"
    using viterbi_decode_total [of "replicate 514 0"] by blast
  then show ?thesis by simp
qed

text \<open>
  Claim C4 (capacity truncation). When \<open>nCoded / 2\<close> exceeds 256, \<^verbatim>\<open>viterbi_decode\<close>
  returns 256 with 256 decoded bits, and these are the bits it decodes from the first 512
  coded bits alone. The result is an ordinary return value: nothing signals the truncation.
\<close>

theorem viterbi_decode_truncates:
  assumes "256 < length coded div 2"
  shows "\<exists>decoded. viterbi_decode coded = Some (256, decoded) \<and> length decoded = 256
     \<and> viterbi_decode (take 512 coded) = Some (256, decoded)"
proof -
  have len: "length (take 512 coded) = 512" using assms by simp
  have same: "map (\<lambda>t. hard_metric (take 512 coded ! (2 * t) AND 1) (take 512 coded ! (2 * t + 1) AND 1)) [0..<256]
      = map (\<lambda>t. hard_metric (coded ! (2 * t) AND 1) (coded ! (2 * t + 1) AND 1)) [0..<256]"
    by (rule map_cong) simp_all
  have a: "viterbi_decode coded
      = viterbi_run (map (\<lambda>t. hard_metric (coded ! (2 * t) AND 1) (coded ! (2 * t + 1) AND 1)) [0..<256])"
    using assms by (simp add: viterbi_decode_def)
  have b: "viterbi_decode (take 512 coded)
      = viterbi_run (map (\<lambda>t. hard_metric (coded ! (2 * t) AND 1) (coded ! (2 * t + 1) AND 1)) [0..<256])"
  proof -
    have k: "\<not> (512::nat) div 2 < 1" "(if (512::nat) div 2 < 256 then 512 div 2 else 256) = (256::nat)"
      by simp_all
    show ?thesis
      unfolding viterbi_decode_def len Let_def k same by simp
  qed
  obtain decoded where "viterbi_decode coded = Some (int (min (length coded div 2) 256), decoded)"
    "length decoded = min (length coded div 2) 256"
    using viterbi_decode_total [of coded] by blast
  then have "viterbi_decode coded = Some (256, decoded)" "length decoded = 256"
    using assms by simp_all
  then show ?thesis using a b by simp
qed

text \<open>
  The truncation on 600 coded ones.
\<close>

theorem viterbi_decode_truncates_witness:
  "\<exists>decoded. viterbi_decode (replicate 600 1) = Some (256, decoded) \<and> length decoded = 256
     \<and> viterbi_decode (take 512 (replicate 600 1)) = Some (256, decoded)"
  by (rule viterbi_decode_truncates) simp

text \<open>
  Claim C10 (final-state tie-breaking). For a coded input of even length with
  \<open>1 \<le> nCoded / 2 \<le> 256\<close>, the traceback of \<^verbatim>\<open>viterbi_decode\<close> starts from a state whose
  metric after the last time step is minimal among the 64 states, and every state with the
  same metric has an index at least as large.
\<close>

theorem traceback_start_state:
  assumes "even (length coded)" "2 \<le> length coded" "length coded div 2 \<le> 256"
  shows "let fw = forward (map (\<lambda>t. hard_metric (coded ! (2 * t) AND 1) (coded ! (2 * t + 1) AND 1))
                            [0..<length coded div 2]) pm_init;
             pm_final = fst fw;
             start = best_state pm_final
         in viterbi_decode coded
              = map_option (\<lambda>decoded. (int (length coded div 2), decoded)) (traceback (rev (snd fw)) start [])
          \<and> start < CONV_STATES
          \<and> (\<forall>s<CONV_STATES. pm_final ! start \<le> pm_final ! s)
          \<and> (\<forall>s<CONV_STATES. pm_final ! s = pm_final ! start \<longrightarrow> start \<le> s)"
proof -
  let ?n = "length coded div 2"
  let ?fw = "forward (map (\<lambda>t. hard_metric (coded ! (2 * t) AND 1) (coded ! (2 * t + 1) AND 1)) [0..<?n]) pm_init"
  have n: "\<not> ?n < 1" using assms(2) by simp
  have m: "(if ?n < 256 then ?n else 256) = ?n" using assms(3) by simp
  have dec: "viterbi_decode coded
      = map_option (\<lambda>decoded. (int ?n, decoded)) (traceback (rev (snd ?fw)) (best_state (fst ?fw)) [])"
    unfolding viterbi_decode_def Let_def m viterbi_run_def using n by simp
  have tie: "best_state (fst ?fw) \<le> s" if "fst ?fw ! s = fst ?fw ! best_state (fst ?fw)" for s
  proof (rule ccontr)
    assume "\<not> best_state (fst ?fw) \<le> s"
    then have "s < best_state (fst ?fw)" by simp
    from best_state_min(3) [OF this] that show False by simp
  qed
  show ?thesis
    unfolding Let_def CONV_STATES_64
    using dec best_state_min(1) [of "fst ?fw"] best_state_min(2) [of _ "fst ?fw"] tie by blast
qed

text \<open>
  The start state on the coded pair 1, 1, compared with state 5.
\<close>

theorem traceback_start_state_witness:
  "viterbi_decode [1, 1]
     = map_option (\<lambda>decoded. (int (length [1, 1 :: nat] div 2), decoded))
         (traceback (rev (snd (forward (map (\<lambda>t. hard_metric ([1, 1] ! (2 * t) AND 1) ([1, 1] ! (2 * t + 1) AND 1))
                            [0..<length [1, 1 :: nat] div 2]) pm_init)))
            (best_state (fst (forward (map (\<lambda>t. hard_metric ([1, 1] ! (2 * t) AND 1) ([1, 1] ! (2 * t + 1) AND 1))
                            [0..<length [1, 1 :: nat] div 2]) pm_init))) [])
   \<and> best_state (fst (forward (map (\<lambda>t. hard_metric ([1, 1] ! (2 * t) AND 1) ([1, 1] ! (2 * t + 1) AND 1))
                            [0..<length [1, 1 :: nat] div 2]) pm_init)) < CONV_STATES
   \<and> fst (forward (map (\<lambda>t. hard_metric ([1, 1] ! (2 * t) AND 1) ([1, 1] ! (2 * t + 1) AND 1))
                            [0..<length [1, 1 :: nat] div 2]) pm_init)
        ! best_state (fst (forward (map (\<lambda>t. hard_metric ([1, 1] ! (2 * t) AND 1) ([1, 1] ! (2 * t + 1) AND 1))
                            [0..<length [1, 1 :: nat] div 2]) pm_init))
      \<le> fst (forward (map (\<lambda>t. hard_metric ([1, 1] ! (2 * t) AND 1) ([1, 1] ! (2 * t + 1) AND 1))
                            [0..<length [1, 1 :: nat] div 2]) pm_init) ! 5"
proof -
  have h: "even (length [1, 1 :: nat])" "2 \<le> length [1, 1 :: nat]" "length [1, 1 :: nat] div 2 \<le> 256"
    by simp_all
  have "(5::nat) < CONV_STATES" by (simp add: CONV_STATES_64)
  then show ?thesis
    using traceback_start_state [OF h] unfolding Let_def by blast
qed

section \<open>The encoder and the trellis\<close>

lemma popcount_loop_acc: "popcount_loop c x = c + popcount_loop 0 x"
proof (induction x arbitrary: c rule: less_induct)
  case (less x)
  show ?case
  proof (cases "x = 0")
    case True
    then show ?thesis by simp
  next
    case False
    then have lt: "drop_bit 1 x < x" by (simp add: drop_bit_eq_div)
    have a: "popcount_loop c x = popcount_loop (c + (x AND 1)) (drop_bit 1 x)"
      using False by (subst popcount_loop.simps) simp
    have b: "popcount_loop 0 x = popcount_loop (0 + (x AND 1)) (drop_bit 1 x)"
      using False by (subst popcount_loop.simps) simp
    show ?thesis
      unfolding a b less.IH [OF lt, of "c + (x AND 1)"] less.IH [OF lt, of "0 + (x AND 1)"]
      by simp
  qed
qed

lemma popcount_0: "popcount 0 = 0"
  by (simp add: popcount_def)

lemma popcount_rec: "x \<noteq> 0 \<Longrightarrow> popcount x = x mod 2 + popcount (x div 2)"
proof -
  assume x: "x \<noteq> 0"
  have "popcount_loop 0 x = popcount_loop (0 + (x AND 1)) (drop_bit 1 x)"
    using x by (subst popcount_loop.simps) simp
  also have "\<dots> = (x AND 1) + popcount_loop 0 (drop_bit 1 x)"
    using popcount_loop_acc [of "x AND 1" "drop_bit 1 x"] by simp
  finally show ?thesis by (simp add: popcount_def and_one_eq drop_bit_eq_div)
qed

lemma popcount_double: "b < 2 \<Longrightarrow> popcount (b + 2 * y) = b + popcount y"
proof (cases "b + 2 * y = 0")
  case True
  then show ?thesis by (simp add: popcount_0)
next
  case False
  assume "b < 2"
  then have "(b + 2 * y) mod 2 = b" "(b + 2 * y) div 2 = y" by simp_all
  then show ?thesis using popcount_rec [OF False] by simp
qed

lemma and_odd_double:
  fixes s b G :: nat
  assumes "b < 2" "odd G"
  shows "(2 * s + b) AND G = b + 2 * (s AND (G div 2))"
proof -
  have "b = 0 \<or> b = 1" using assms(1) by linarith
  then have "odd (2 * s + b) \<longleftrightarrow> b = 1" by auto
  moreover have "(2 * s + b) div 2 = s" using assms(1) by simp
  ultimately have "(2 * s + b) AND G = of_bool (b = 1) + 2 * (s AND (G div 2))"
    using assms(2) by (subst and_rec) simp
  moreover have "of_bool (b = 1) = b" using assms(1) by (cases "b = 0") auto
  ultimately show ?thesis by simp
qed

lemma enc_bit_parity:
  assumes "b < 2"
  shows "enc_bit0 (2 * s + b) = (b + popcount (s AND 45)) mod 2"
    and "enc_bit1 (2 * s + b) = (b + popcount (s AND 60)) mod 2"
proof -
  have "odd CONV_G0" "CONV_G0 div 2 = 45" "odd CONV_G1" "CONV_G1 div 2 = 60"
    by (simp_all add: CONV_G0_def CONV_G1_def)
  then show "enc_bit0 (2 * s + b) = (b + popcount (s AND 45)) mod 2"
    and "enc_bit1 (2 * s + b) = (b + popcount (s AND 60)) mod 2"
    unfolding enc_bit0_def enc_bit1_def
    using and_odd_double [OF assms, of CONV_G0 s] and_odd_double [OF assms, of CONV_G1 s]
    by (simp_all add: popcount_double [OF assms] and_one_eq)
qed

lemma enc_bit_lt2: "enc_bit0 f < 2" "enc_bit1 f < 2"
  by (simp_all add: enc_bit0_def enc_bit1_def and_one_eq)

lemma parity_flip: "(Suc p) mod 2 \<noteq> p mod 2"
  by (simp add: mod_Suc)

lemma enc_bit_flip:
  assumes "b < 2" "b' < 2" "b \<noteq> b'"
  shows "enc_bit0 (2 * s + b) \<noteq> enc_bit0 (2 * s + b')"
    and "enc_bit1 (2 * s + b) \<noteq> enc_bit1 (2 * s + b')"
proof -
  have c: "(b = 0 \<and> b' = Suc 0) \<or> (b = Suc 0 \<and> b' = 0)" using assms by linarith
  show "enc_bit0 (2 * s + b) \<noteq> enc_bit0 (2 * s + b')"
    unfolding enc_bit_parity(1) [OF assms(1)] enc_bit_parity(1) [OF assms(2)]
    using c parity_flip [of "popcount (s AND 45)"] by auto
  show "enc_bit1 (2 * s + b) \<noteq> enc_bit1 (2 * s + b')"
    unfolding enc_bit_parity(2) [OF assms(1)] enc_bit_parity(2) [OF assms(2)]
    using c parity_flip [of "popcount (s AND 60)"] by auto
qed

lemma and_127: "(x::nat) AND 127 = x mod 128"
proof -
  have "(127::nat) = mask 7" by (simp add: mask_eq_exp_minus_1)
  then have "x AND 127 = take_bit 7 x" by (simp only: take_bit_eq_mask)
  then show ?thesis by (simp add: take_bit_eq_mod)
qed

lemma bit_and_1: "b < 2 \<Longrightarrow> b AND 1 = (b::nat)"
  by (simp add: and_one_eq)

lemma mod128_split:
  fixes r b :: nat
  assumes "b < 2"
  shows "(2 * r + b) mod 128 = 2 * (r mod 64) + b"
proof -
  have "r = 64 * (r div 64) + r mod 64" by simp
  then have "2 * r + b = 128 * (r div 64) + (2 * (r mod 64) + b)" by linarith
  moreover have "2 * (r mod 64) + b < 128"
  proof -
    have "r mod 64 < 64" by simp
    then show ?thesis using assms by linarith
  qed
  ultimately show ?thesis by (metis mod_less mod_mult_self4)
qed

lemma enc_reg_snoc:
  assumes "b < 2"
  shows "enc_reg st (inp @ [b]) = 2 * (enc_reg st inp mod 64) + b"
proof -
  have "CONV_STATES * 2 - 1 = 127" by (simp add: CONV_STATES_64)
  then show ?thesis
    unfolding enc_reg_def
    by (simp only: foldl_append foldl_Cons foldl_Nil bit_and_1 [OF assms] full_state_eq [OF assms]
        and_127 mod128_split [OF assms])
qed

lemma enc_reg_trellis:
  assumes "set inp \<subseteq> {0, 1}"
  shows "enc_reg 0 inp mod 64 = trellis_state inp"
  using assms
proof (induction inp rule: rev_induct)
  case Nil
  then show ?case by (simp add: enc_reg_def trellis_state_def)
next
  case (snoc b inp)
  then have b: "b < 2" and ih: "enc_reg 0 inp mod 64 = trellis_state inp" by auto
  have "trellis_state (inp @ [b]) = (2 * trellis_state inp + b) mod 64"
    by (simp add: trellis_state_def)
  also have "\<dots> = (2 * (enc_reg 0 inp mod 64) + b) mod 64" by (simp only: ih)
  finally show ?case by (simp only: enc_reg_snoc [OF b])
qed

lemma conv_encode_loop_length: "length (conv_encode_loop st inp) = 2 * length inp"
  by (induction inp arbitrary: st) (simp_all add: Let_def)

lemma enc_reg_Cons:
  "enc_reg st (b # bs) = enc_reg ((push_bit 1 st OR (b AND 1)) AND (CONV_STATES * 2 - 1)) bs"
  by (simp add: enc_reg_def)

lemma enc_reg_Nil: "enc_reg st [] = st"
  by (simp add: enc_reg_def)

lemma conv_encode_loop_nth:
  "i < length inp \<Longrightarrow>
     conv_encode_loop st inp ! (2 * i) = popcount (enc_reg st (take (Suc i) inp) AND CONV_G0) AND 1
   \<and> conv_encode_loop st inp ! (2 * i + 1) = popcount (enc_reg st (take (Suc i) inp) AND CONV_G1) AND 1"
proof (induction inp arbitrary: st i)
  case Nil
  then show ?case by simp
next
  case (Cons b bs)
  show ?case
  proof (cases i)
    case 0
    show ?thesis unfolding 0 by (simp add: Let_def enc_reg_Cons enc_reg_Nil)
  next
    case (Suc j)
    then have "j < length bs" using Cons.prems by simp
    from Cons.IH [OF this] show ?thesis
      unfolding Suc by (simp add: Let_def enc_reg_Cons)
  qed
qed

lemma conv_encode_length: "length (conv_encode inp) = 2 * length inp"
  by (simp add: conv_encode_def conv_encode_loop_length)

lemma conv_encode_nth_trellis:
  assumes "set inp \<subseteq> {0, 1}" "t < length inp"
  shows "conv_encode inp ! (2 * t) = enc_bit0 (2 * trellis_state (take t inp) + inp ! t)"
    and "conv_encode inp ! (2 * t + 1) = enc_bit1 (2 * trellis_state (take t inp) + inp ! t)"
proof -
  have "inp ! t \<in> {0, 1}" using assms nth_mem by blast
  then have b: "inp ! t < 2" by auto
  have sub: "set (take t inp) \<subseteq> {0, 1}" using assms(1) by (meson set_take_subset subset_trans)
  have tk: "take (Suc t) inp = take t inp @ [inp ! t]" using assms(2) by (simp add: take_Suc_conv_app_nth)
  have reg: "enc_reg 0 (take (Suc t) inp) = 2 * trellis_state (take t inp) + inp ! t"
    unfolding tk enc_reg_snoc [OF b] enc_reg_trellis [OF sub] by (rule refl)
  show "conv_encode inp ! (2 * t) = enc_bit0 (2 * trellis_state (take t inp) + inp ! t)"
    unfolding conv_encode_def conv_encode_loop_nth [OF assms(2), THEN conjunct1] reg enc_bit0_def by (rule refl)
  show "conv_encode inp ! (2 * t + 1) = enc_bit1 (2 * trellis_state (take t inp) + inp ! t)"
    unfolding conv_encode_def conv_encode_loop_nth [OF assms(2), THEN conjunct2] reg enc_bit1_def by (rule refl)
qed

section \<open>Decoding the encoder's own output\<close>

lemma enc_bit_and_1: "enc_bit0 f AND 1 = enc_bit0 f" "enc_bit1 f AND 1 = enc_bit1 f"
  using enc_bit_lt2 [of f] by (simp_all only: bit_and_1)

lemma hard_cand_match:
  "cand (hard_metric (enc_bit0 (2 * s + x) AND 1) (enc_bit1 (2 * s + x) AND 1)) pm s x = pm ! s"
  unfolding enc_bit_and_1 by (simp add: cand_def hard_metric_def)

lemma hard_cand_mismatch:
  assumes "x < 2" "b < 2" "b \<noteq> x"
  shows "cand (hard_metric (enc_bit0 (2 * s + x) AND 1) (enc_bit1 (2 * s + x) AND 1)) pm s b = pm ! s + 2"
  unfolding enc_bit_and_1 using enc_bit_flip [OF assms(2,1,3), of s]
  by (simp add: cand_def hard_metric_def)

lemma peaked_step:
  assumes pk: "peaked pm s" and x: "x < 2"
  defines "mf \<equiv> hard_metric (enc_bit0 (2 * s + x) AND 1) (enc_bit1 (2 * s + x) AND 1)"
  shows "peaked (fst (acs_step mf pm)) ((2 * s + x) mod 64)"
    and "snd (acs_step mf pm) ! ((2 * s + x) mod 64) = Some s"
proof -
  let ?ns = "(2 * s + x) mod 64"
  have hard: "is_hard mf" unfolding mf_def is_hard_def by blast
  have s: "s < 64" "pm ! s = 0" and others: "\<And>q. q < 64 \<Longrightarrow> q \<noteq> s \<Longrightarrow> 1 \<le> pm ! q"
    using pk unfolding peaked_def by auto
  have fin: "pm ! s < VITERBI_INF" using s(2) by (simp add: VITERBI_INF_def)
  have ns: "?ns < 64" by simp
  have pr: "s mod 32 = ?ns div 2" "x = ?ns mod 2" using pred_iff [OF x, of s ?ns] by simp_all
  \<comment> \<open>what any finite predecessor offers\<close>
  have offer: "cand mf pm p (ns mod 2) = 0 \<and> p = s \<and> ns = ?ns \<or> 1 \<le> cand mf pm p (ns mod 2)"
    if "p < 64" "p mod 32 = ns div 2" "ns < 64" for p ns
  proof (cases "p = s")
    case False
    then have "1 \<le> pm ! p" using others that(1) by simp
    then show ?thesis using hard_cand_bounds(1) [OF hard, of pm p "ns mod 2"] by linarith
  next
    case True
    show ?thesis
    proof (cases "ns mod 2 = x")
      case same: True
      then have "(2 * s + x) mod 64 = ns" using pred_iff [OF x, of s ns] that(2) True by simp
      moreover have "cand mf pm s x = pm ! s" unfolding mf_def by (rule hard_cand_match)
      ultimately show ?thesis using True same s(2) by simp
    next
      case False
      have "ns mod 2 < 2" by simp
      from hard_cand_mismatch [OF x this False, of s pm]
      have "cand mf pm s (ns mod 2) = pm ! s + 2" unfolding mf_def .
      then show ?thesis using True s(2) by simp
    qed
  qed
  have "cand mf pm s x = pm ! s" unfolding mf_def by (rule hard_cand_match)
  then have le0: "fst (entry (acs_step mf pm) ?ns) \<le> 0"
    using entry_step_le [OF ns s(1) pr(1) fin, of mf] pr(2) s(2) by simp
  have at_ns: "entry (acs_step mf pm) ?ns = (0, Some s)"
    using entry_step_cases [OF ns, of mf pm]
  proof
    assume "entry (acs_step mf pm) ?ns = (VITERBI_INF, None)"
    then show ?thesis using le0 by (simp add: VITERBI_INF_def)
  next
    assume "\<exists>p<64. p mod 32 = ?ns div 2 \<and> pm ! p < VITERBI_INF
        \<and> entry (acs_step mf pm) ?ns = (cand mf pm p (?ns mod 2), Some p)"
    then obtain p where p: "p < 64" "p mod 32 = ?ns div 2"
      and e: "entry (acs_step mf pm) ?ns = (cand mf pm p (?ns mod 2), Some p)" by blast
    from offer [OF p ns] le0 e show ?thesis by auto
  qed
  have elsewhere: "1 \<le> fst (acs_step mf pm) ! q" if "q < 64" "q \<noteq> ?ns" for q
    using entry_step_cases [OF that(1), of mf pm]
  proof
    assume "entry (acs_step mf pm) q = (VITERBI_INF, None)"
    then show ?thesis by (simp add: entry_def VITERBI_INF_def)
  next
    assume "\<exists>p<64. p mod 32 = q div 2 \<and> pm ! p < VITERBI_INF
        \<and> entry (acs_step mf pm) q = (cand mf pm p (q mod 2), Some p)"
    then obtain p where p: "p < 64" "p mod 32 = q div 2"
      and e: "entry (acs_step mf pm) q = (cand mf pm p (q mod 2), Some p)" by blast
    from offer [OF p that(1)] that(2) e show ?thesis by (auto simp: entry_def)
  qed
  show "peaked (fst (acs_step mf pm)) ?ns"
    unfolding peaked_def using at_ns elsewhere ns by (simp add: entry_def acs_step_length)
  show "snd (acs_step mf pm) ! ?ns = Some s"
    using at_ns by (simp add: entry_def)
qed

lemma trellis_state_snoc: "trellis_state (inp @ [b]) = (2 * trellis_state inp + b) mod 64"
  by (simp add: trellis_state_def)

lemma noiseless_metrics_snoc:
  "noiseless_metrics (inp @ [b]) =
     noiseless_metrics inp @ [hard_metric (enc_bit0 (2 * trellis_state inp + b) AND 1)
                                         (enc_bit1 (2 * trellis_state inp + b) AND 1)]"
  by (simp add: noiseless_metrics_def nth_append)

lemma peaked_init: "peaked pm_init 0"
  unfolding peaked_def pm_init_def CONV_STATES_64 by (simp add: VITERBI_INF_def)

lemma noiseless_forward:
  assumes "set inp \<subseteq> {0, 1}"
  shows "peaked (fst (forward (noiseless_metrics inp) pm_init)) (trellis_state inp)
    \<and> (\<forall>acc. traceback (rev (snd (forward (noiseless_metrics inp) pm_init))) (trellis_state inp) acc
          = Some (map (\<lambda>t. drop_bit (CONV_K - 2) (trellis_state (take (Suc t) inp)) AND 1) [0..<length inp] @ acc))"
  using assms
proof (induction inp rule: rev_induct)
  case Nil
  then show ?case by (simp add: noiseless_metrics_def trellis_state_def peaked_init)
next
  case (snoc b inp)
  let ?fw = "forward (noiseless_metrics inp) pm_init"
  let ?mf = "hard_metric (enc_bit0 (2 * trellis_state inp + b) AND 1) (enc_bit1 (2 * trellis_state inp + b) AND 1)"
  let ?st = "acs_step ?mf (fst ?fw)"
  have b: "b < 2" and sub: "set inp \<subseteq> {0, 1}" using snoc.prems by auto
  have ih: "peaked (fst ?fw) (trellis_state inp)"
    "\<And>acc. traceback (rev (snd ?fw)) (trellis_state inp) acc
        = Some (map (\<lambda>t. drop_bit (CONV_K - 2) (trellis_state (take (Suc t) inp)) AND 1) [0..<length inp] @ acc)"
    using snoc.IH [OF sub] by simp_all
  note step = peaked_step [OF ih(1) b]
  have fw: "forward (noiseless_metrics (inp @ [b])) pm_init = (fst ?st, snd ?fw @ [snd ?st])"
    by (simp add: noiseless_metrics_snoc forward_snoc)
  have bits: "map (\<lambda>t. drop_bit (CONV_K - 2) (trellis_state (take (Suc t) (inp @ [b]))) AND 1) [0..<length (inp @ [b])]
      = map (\<lambda>t. drop_bit (CONV_K - 2) (trellis_state (take (Suc t) inp)) AND 1) [0..<length inp]
        @ [drop_bit (CONV_K - 2) (trellis_state (inp @ [b])) AND 1]"
    by simp
  show ?case
    unfolding fw bits trellis_state_snoc
    using step ih(2) by simp
qed

lemma trellis_bit:
  assumes "set inp \<subseteq> {0, 1}" "j < 6"
  shows "bit (trellis_state inp) j \<longleftrightarrow> j < length inp \<and> inp ! (length inp - 1 - j) = 1"
  using assms
proof (induction inp arbitrary: j rule: rev_induct)
  case Nil
  then show ?case by (simp add: trellis_state_def)
next
  case (snoc b inp)
  have b: "b = 0 \<or> b = 1" and sub: "set inp \<subseteq> {0, 1}" using snoc.prems(1) by auto
  have "(2 * trellis_state inp + b) mod 64 = take_bit 6 (2 * trellis_state inp + b)"
    by (simp add: take_bit_eq_mod)
  then have st: "bit (trellis_state (inp @ [b])) j \<longleftrightarrow> bit (2 * trellis_state inp + b) j"
    using snoc.prems(2) by (simp add: trellis_state_snoc bit_take_bit_iff)
  show ?case
  proof (cases j)
    case 0
    have "bit (2 * trellis_state inp + b) 0 \<longleftrightarrow> b = 1" using b by (auto simp: bit_0)
    then show ?thesis using st unfolding 0 by simp
  next
    case (Suc i)
    then have i: "i < 6" using snoc.prems(2) by simp
    have "(2 * trellis_state inp + b) div 2 = trellis_state inp" using b by auto
    then have "bit (2 * trellis_state inp + b) (Suc i) \<longleftrightarrow> bit (trellis_state inp) i"
      by (simp add: bit_Suc)
    also have "\<dots> \<longleftrightarrow> i < length inp \<and> inp ! (length inp - 1 - i) = 1"
      by (rule snoc.IH [OF sub i])
    finally show ?thesis using st unfolding Suc by (auto simp: nth_append)
  qed
qed

lemma delayed_bit:
  assumes "set inp \<subseteq> {0, 1}" "t < length inp"
  shows "drop_bit (CONV_K - 2) (trellis_state (take (Suc t) inp)) AND 1
      = (if t < CONV_K - 2 then 0 else inp ! (t - (CONV_K - 2)))"
proof -
  have sub: "set (take (Suc t) inp) \<subseteq> {0, 1}"
    using assms(1) by (meson set_take_subset subset_trans)
  have len: "length (take (Suc t) inp) = Suc t" using assms(2) by simp
  have "drop_bit 5 (trellis_state (take (Suc t) inp)) AND 1
      = of_bool (bit (trellis_state (take (Suc t) inp)) 5)"
    by (simp add: and_one_eq bit_iff_odd_drop_bit mod_2_eq_odd)
  also have "bit (trellis_state (take (Suc t) inp)) 5 \<longleftrightarrow> 5 \<le> t \<and> inp ! (t - 5) = 1"
    unfolding trellis_bit [OF sub, of 5, simplified] len using assms(2) by auto
  finally have e: "drop_bit 5 (trellis_state (take (Suc t) inp)) AND 1
      = of_bool (5 \<le> t \<and> inp ! (t - 5) = 1)" .
  show ?thesis
  proof (cases "t < 5")
    case True
    then show ?thesis unfolding CONV_K_def using e by simp
  next
    case False
    then have "t - 5 < length inp" using assms(2) by simp
    then have "inp ! (t - 5) \<in> {0, 1}" using assms(1) nth_mem by blast
    then show ?thesis unfolding CONV_K_def using e False by auto
  qed
qed

lemma noiseless_metrics_eq:
  assumes "set inp \<subseteq> {0, 1}"
  shows "map (\<lambda>t. hard_metric (conv_encode inp ! (2 * t) AND 1) (conv_encode inp ! (2 * t + 1) AND 1))
           [0..<length inp] = noiseless_metrics inp"
  unfolding noiseless_metrics_def
  by (rule map_cong [OF refl]) (simp only: conv_encode_nth_trellis [OF assms] atLeastLessThan_iff set_upt)

lemma peaked_best_state:
  assumes "peaked pm s"
  shows "best_state pm = s"
proof (rule ccontr)
  assume ne: "best_state pm \<noteq> s"
  have s: "s < 64" "pm ! s = 0" using assms unfolding peaked_def by simp_all
  have "1 \<le> pm ! best_state pm"
    using assms ne best_state_min(1) [of pm] unfolding peaked_def by blast
  moreover have "pm ! best_state pm \<le> pm ! s" by (rule best_state_min(2) [OF s(1)])
  ultimately show False using s(2) by simp
qed

lemma viterbi_noiseless:
  assumes "set inp \<subseteq> {0, 1}" "1 \<le> length inp" "length inp \<le> 256"
  shows "viterbi_decode (conv_encode inp)
      = Some (int (length inp),
              map (\<lambda>t. if t < CONV_K - 2 then 0 else inp ! (t - (CONV_K - 2))) [0..<length inp])"
proof -
  let ?n = "length inp"
  let ?fw = "forward (noiseless_metrics inp) pm_init"
  have n: "length (conv_encode inp) div 2 = ?n" by (simp add: conv_encode_length)
  have m: "\<not> ?n < 1" "(if ?n < 256 then ?n else 256) = ?n" using assms(2,3) by auto
  have dec: "viterbi_decode (conv_encode inp) = viterbi_run (noiseless_metrics inp)"
    unfolding viterbi_decode_def n Let_def m(2) noiseless_metrics_eq [OF assms(1)] using m(1) by simp
  note f = noiseless_forward [OF assms(1)]
  have bs: "best_state (fst ?fw) = trellis_state inp"
    using f by (intro peaked_best_state) simp
  have tb: "traceback (rev (snd ?fw)) (trellis_state inp) []
      = Some (map (\<lambda>t. drop_bit (CONV_K - 2) (trellis_state (take (Suc t) inp)) AND 1) [0..<?n])"
    using f by simp
  have bits: "map (\<lambda>t. drop_bit (CONV_K - 2) (trellis_state (take (Suc t) inp)) AND 1) [0..<?n]
      = map (\<lambda>t. if t < CONV_K - 2 then 0 else inp ! (t - (CONV_K - 2))) [0..<?n]"
    by (rule map_cong [OF refl]) (simp only: delayed_bit [OF assms(1)] atLeastLessThan_iff set_upt)
  have len: "length (noiseless_metrics inp) = ?n" by (simp add: noiseless_metrics_def)
  show ?thesis
    unfolding dec viterbi_run_def Let_def bs tb bits len by simp
qed

section \<open>Soft decisions on saturated input\<close>

lemma paired_cand:
  assumes "paired mfh mfs"
  obtains hd :: real where "0 \<le> hd" "hd \<le> 2"
    "cand mfh pmh s b = pmh ! s + hd" "cand mfs pms s b = pms ! s - 20 + 20 * hd"
proof -
  from assms obtain r0 r1 where r: "r0 < 2" "r1 < 2"
    and mf: "mfh = hard_metric r0 r1" "mfs = soft_metric (sat_llr r0) (sat_llr r1)"
    unfolding paired_def by blast
  let ?e0 = "enc_bit0 (2 * s + b)" and ?e1 = "enc_bit1 (2 * s + b)"
  let ?hd = "(if ?e0 \<noteq> r0 then 1 else 0) + (if ?e1 \<noteq> r1 then 1 else (0::real))"
  have e: "?e0 = 0 \<or> ?e0 = 1" "?e1 = 0 \<or> ?e1 = 1"
    using enc_bit_lt2 [of "2 * s + b"] by linarith+
  have rr: "r0 = 0 \<or> r0 = 1" "r1 = 0 \<or> r1 = 1" using r by auto
  have a: "(if ?e0 \<noteq> 0 then - sat_llr r0 else sat_llr r0) = 10 - 20 * (if ?e0 \<noteq> r0 then 1 else 0)"
    using e(1) rr(1) by (auto simp: sat_llr_def)
  have b: "(if ?e1 \<noteq> 0 then - sat_llr r1 else sat_llr r1) = 10 - 20 * (if ?e1 \<noteq> r1 then 1 else 0)"
    using e(2) rr(2) by (auto simp: sat_llr_def)
  have "cand mfh pmh s b = pmh ! s + ?hd"
    by (simp add: mf cand_def hard_metric_def)
  moreover have "cand mfs pms s b = pms ! s - 20 + 20 * ?hd"
    unfolding mf cand_def soft_metric_def Let_def a b by simp
  moreover have "0 \<le> ?hd" "?hd \<le> 2" by simp_all
  ultimately show ?thesis using that by blast
qed

lemma upd_sim:
  assumes sm: "sim t pmh pms" and pr: "paired mfh mfs" and e: "sim_entry (t + 1) eh es"
    and s: "s < 64" and t: "0 \<le> t" "t \<le> 256"
  shows "sim_entry (t + 1) (upd mfh pmh ns eh s) (upd mfs pms ns es s)"
proof -
  define ch cs where "ch = cand mfh pmh s (ns mod 2)" and "cs = cand mfs pms s (ns mod 2)"
  from paired_cand [OF pr, of pmh s "ns mod 2" pms] obtain d :: real where d: "0 \<le> d" "d \<le> 2"
    and ch: "ch = pmh ! s + d" and cs: "cs = pms ! s - 20 + 20 * d"
    unfolding ch_def cs_def by blast
  have uh: "upd mfh pmh ns eh s = (if pmh ! s \<ge> VITERBI_INF then eh else if ch < fst eh then (ch, Some s) else eh)"
    and us: "upd mfs pms ns es s = (if pms ! s \<ge> VITERBI_INF then es else if cs < fst es then (cs, Some s) else es)"
    by (simp_all add: upd_def ch_def cs_def)
  from sm s have "(pmh ! s = VITERBI_INF \<and> pms ! s = VITERBI_INF)
        \<or> (0 \<le> pmh ! s \<and> pmh ! s \<le> 2 * t \<and> pms ! s = 20 * pmh ! s - 20 * t)"
    unfolding sim_def by blast
  then show ?thesis
  proof
    assume "pmh ! s = VITERBI_INF \<and> pms ! s = VITERBI_INF"
    then show ?thesis using e by (simp add: uh us)
  next
    assume f: "0 \<le> pmh ! s \<and> pmh ! s \<le> 2 * t \<and> pms ! s = 20 * pmh ! s - 20 * t"
    have big: "(10000::real) < VITERBI_INF" by (simp add: VITERBI_INF_def)
    have fin: "\<not> VITERBI_INF \<le> pmh ! s" "\<not> VITERBI_INF \<le> pms ! s"
      using f t big by auto
    have ch': "0 \<le> ch" "ch \<le> 2 * (t + 1)"
      using f d ch by auto
    have cs': "cs = 20 * ch - 20 * (t + 1)"
      using f ch cs by auto
    have lt: "cs < fst es \<longleftrightarrow> ch < fst eh"
      using e ch' cs' t big unfolding sim_entry_def by auto
    show ?thesis
      unfolding uh us using fin lt e ch' cs' by (auto simp: sim_entry_def)
  qed
qed

lemma step_sim:
  assumes sm: "sim t pmh pms" and pr: "paired mfh mfs" and t: "0 \<le> t" "t \<le> 256"
  shows "sim (t + 1) (fst (acs_step mfh pmh)) (fst (acs_step mfs pms))"
    and "snd (acs_step mfh pmh) = snd (acs_step mfs pms)"
proof -
  have e: "sim_entry (t + 1) (entry (acs_step mfh pmh) ns) (entry (acs_step mfs pms) ns)" if "ns < 64" for ns
  proof -
    have p: "ns div 2 < 64" "ns div 2 + 32 < 64" using that by simp_all
    have "sim_entry (t + 1) (VITERBI_INF, None) (VITERBI_INF, None)" by (simp add: sim_entry_def)
    from upd_sim [OF sm pr upd_sim [OF sm pr this p(1) t] p(2) t]
    show ?thesis unfolding entry_step [OF that] .
  qed
  show "sim (t + 1) (fst (acs_step mfh pmh)) (fst (acs_step mfs pms))"
    unfolding sim_def using e by (simp add: acs_step_length sim_entry_def entry_def)
  show "snd (acs_step mfh pmh) = snd (acs_step mfs pms)"
    by (rule nth_equalityI) (use e in \<open>simp_all add: acs_step_length sim_entry_def entry_def\<close>)
qed

lemma forward_sim:
  assumes "list_all2 paired mfhs mfss" "sim t pmh pms" "0 \<le> t" "t + real (length mfhs) \<le> 256"
  shows "snd (forward mfhs pmh) = snd (forward mfss pms)
    \<and> sim (t + real (length mfhs)) (fst (forward mfhs pmh)) (fst (forward mfss pms))"
  using assms
proof (induction mfhs mfss arbitrary: t pmh pms rule: list_all2_induct)
  case Nil
  then show ?case by simp
next
  case (Cons mfh mfhs mfs mfss)
  have t: "0 \<le> t" "t \<le> 256" using Cons.prems by simp_all
  note st = step_sim [OF Cons.prems(1) Cons.hyps(1) t]
  have "0 \<le> t + 1" "t + 1 + real (length mfhs) \<le> 256" using Cons.prems by simp_all
  from Cons.IH [OF st(1) this] st(2) show ?case by (simp add: Let_def add.assoc)
qed

lemma best_state_sim:
  assumes "sim t pmh pms" "0 \<le> t" "t \<le> 256"
  shows "best_state pmh = best_state pms"
proof -
  have big: "(10000::real) < VITERBI_INF" by (simp add: VITERBI_INF_def)
  have cmp: "pmh ! s < pmh ! b \<longleftrightarrow> pms ! s < pms ! b" if "s < 64" "b < 64" for s b
  proof -
    have "(pmh ! s = VITERBI_INF \<and> pms ! s = VITERBI_INF)
        \<or> (0 \<le> pmh ! s \<and> pmh ! s \<le> 2 * t \<and> pms ! s = 20 * pmh ! s - 20 * t)"
      "(pmh ! b = VITERBI_INF \<and> pms ! b = VITERBI_INF)
        \<or> (0 \<le> pmh ! b \<and> pmh ! b \<le> 2 * t \<and> pms ! b = 20 * pmh ! b - 20 * t)"
      using assms(1) that unfolding sim_def by blast+
    then show ?thesis using assms(2,3) big by (elim conjE disjE) (simp, linarith+)
  qed
  have "b < 64 \<Longrightarrow> \<forall>s \<in> set xs. s < 64 \<Longrightarrow>
      foldl (\<lambda>best s. if pmh ! s < pmh ! best then s else best) b xs
      = foldl (\<lambda>best s. if pms ! s < pms ! best then s else best) b xs" for b xs
  proof (induction xs arbitrary: b)
    case Nil
    then show ?case by simp
  next
    case (Cons x xs)
    then have x: "x < 64" by simp
    show ?case using Cons.IH [of x] Cons.IH [of b] Cons.prems cmp [OF x Cons.prems(1)] by simp
  qed
  from this [of 0 "[1..<64]"] show ?thesis by (simp add: best_state_def CONV_STATES_64)
qed

lemma sim_init: "sim 0 pm_init pm_init"
  unfolding sim_def pm_init_def CONV_STATES_64
proof (intro conjI allI impI)
  fix s :: nat assume "s < 64"
  then show "(replicate 64 VITERBI_INF)[0 := 0] ! s = VITERBI_INF \<and> (replicate 64 VITERBI_INF)[0 := 0] ! s = VITERBI_INF \<or>
         0 \<le> (replicate 64 VITERBI_INF)[0 := 0] ! s \<and> (replicate 64 VITERBI_INF)[0 := 0] ! s \<le> 2 * 0 \<and>
         (replicate 64 VITERBI_INF)[0 := 0] ! s = 20 * (replicate 64 VITERBI_INF)[0 := 0] ! s - 20 * 0"
    by (cases "s = 0") simp_all
qed simp_all

lemma viterbi_run_sim:
  assumes "list_all2 paired mfhs mfss" "length mfhs \<le> 256"
  shows "viterbi_run mfss = viterbi_run mfhs"
proof -
  have l: "0 + real (length mfhs) \<le> 256" using assms(2) by simp
  note f = forward_sim [OF assms(1) sim_init _ l, simplified]
  have "best_state (fst (forward mfhs pm_init)) = best_state (fst (forward mfss pm_init))"
    by (rule best_state_sim [OF f [THEN conjunct2]]) (use assms(2) in simp_all)
  moreover have "length mfhs = length mfss" using assms(1) by (rule list_all2_lengthD)
  ultimately show ?thesis using f by (simp add: viterbi_run_def Let_def)
qed

section \<open>The claims about encoding and decoding\<close>

lemma conv_encode_loop_bits: "set (conv_encode_loop st inp) \<subseteq> {0, 1}"
proof (induction inp arbitrary: st)
  case Nil
  then show ?case by simp
next
  case (Cons b bs)
  have "popcount v AND 1 \<in> {0, 1}" for v
  proof -
    have "popcount v mod 2 < 2" by simp
    then have "popcount v mod 2 = 0 \<or> popcount v mod 2 = 1" by linarith
    then show ?thesis by (simp add: and_one_eq)
  qed
  then show ?case using Cons.IH by (simp add: Let_def del: One_nat_def)
qed

lemma conv_encode_bits: "set (conv_encode inp) \<subseteq> {0, 1}"
  unfolding conv_encode_def by (rule conv_encode_loop_bits)

lemma viterbi_soft_hard:
  assumes "set coded \<subseteq> {0, 1}"
  shows "viterbi_decode_soft (map sat_llr coded) = viterbi_decode coded"
proof (cases "length coded div 2 < 1")
  case True
  then show ?thesis by (simp add: viterbi_decode_soft_def viterbi_decode_def)
next
  case False
  define m where "m = (if length coded div 2 < 256 then length coded div 2 else 256)"
  let ?mfh = "\<lambda>t. hard_metric (coded ! (2 * t) AND 1) (coded ! (2 * t + 1) AND 1)"
  let ?mfs = "\<lambda>t. soft_metric (map sat_llr coded ! (2 * t)) (map sat_llr coded ! (2 * t + 1))"
  have m: "m \<le> length coded div 2" "m \<le> 256" by (simp_all add: m_def)
  have "paired (?mfh t) (?mfs t)" if "t < m" for t
  proof -
    have i: "2 * t < length coded" "2 * t + 1 < length coded" using that m(1) by auto
    then have "coded ! (2 * t) \<in> {0, 1}" "coded ! (2 * t + 1) \<in> {0, 1}"
      using assms nth_mem by blast+
    then have b: "coded ! (2 * t) < 2" "coded ! (2 * t + 1) < 2" by auto
    show ?thesis
      unfolding paired_def nth_map [OF i(1)] nth_map [OF i(2)] bit_and_1 [OF b(1)] bit_and_1 [OF b(2)]
      using b by blast
  qed
  then have "list_all2 paired (map ?mfh [0..<m]) (map ?mfs [0..<m])"
    by (simp add: list_all2_map1 list_all2_map2 list_all2_same)
  moreover have "length (map ?mfh [0..<m]) \<le> 256" using m(2) by simp
  ultimately have "viterbi_run (map ?mfs [0..<m]) = viterbi_run (map ?mfh [0..<m])"
    by (rule viterbi_run_sim)
  then show ?thesis
    using False unfolding viterbi_decode_soft_def viterbi_decode_def Let_def length_map m_def [symmetric]
    by simp
qed

text \<open>
  Claim C7 (soft and hard decisions agree on saturated input). For every input \<open>x\<close>, the
  soft-decision decoder on the log-likelihood ratios that are \<open>+10\<close> where the encoder's
  output bit is 0 and \<open>-10\<close> where it is 1 returns exactly what the hard-decision decoder
  returns on the encoder's output; and that common result is a proper one, with
  \<open>min (n, 256)\<close> decoded bits.
\<close>

theorem soft_hard_agree:
  "viterbi_decode_soft (map (\<lambda>b. if b = 0 then 10 else - 10) (conv_encode x)) = viterbi_decode (conv_encode x)
   \<and> (\<exists>decoded. viterbi_decode (conv_encode x) = Some (int (min (length x) 256), decoded)
         \<and> length decoded = min (length x) 256)"
proof -
  have "sat_llr = (\<lambda>b. if b = 0 then 10 else - 10)" by (rule ext) (simp add: sat_llr_def)
  then have "viterbi_decode_soft (map (\<lambda>b. if b = 0 then 10 else - 10) (conv_encode x)) = viterbi_decode (conv_encode x)"
    using viterbi_soft_hard [OF conv_encode_bits, of x] by simp
  moreover have "\<exists>decoded. viterbi_decode (conv_encode x) = Some (int (min (length x) 256), decoded)
         \<and> length decoded = min (length x) 256"
    using viterbi_decode_total [of "conv_encode x"] by (simp add: conv_encode_length)
  ultimately show ?thesis by blast
qed

text \<open>
  Claim C2 (delay of the traceback). For every bit sequence \<open>x\<close> of length
  \<open>1 \<le> n \<le> 256\<close>, decoding the encoder's output returns \<open>n\<close> bits, of which the first
  \<open>K - 2 = 5\<close> are 0 and the bit at position \<open>t \<ge> 5\<close> is \<open>x[t - 5]\<close>.
\<close>

theorem viterbi_delay:
  assumes "set x \<subseteq> {0, 1}" "1 \<le> length x" "length x \<le> 256"
  shows "\<exists>decoded. viterbi_decode (conv_encode x) = Some (int (length x), decoded)
     \<and> length decoded = length x
     \<and> CONV_K - 2 = 5
     \<and> (\<forall>t. t < 5 \<and> t < length x \<longrightarrow> decoded ! t = 0)
     \<and> (\<forall>t. 5 \<le> t \<and> t < length x \<longrightarrow> decoded ! t = x ! (t - 5))"
proof -
  let ?d = "map (\<lambda>t. if t < CONV_K - 2 then 0 else x ! (t - (CONV_K - 2))) [0..<length x]"
  have "viterbi_decode (conv_encode x) = Some (int (length x), ?d)"
    by (rule viterbi_noiseless [OF assms])
  moreover have "length ?d = length x" by simp
  moreover have "CONV_K - 2 = 5" by (simp add: CONV_K_def)
  moreover have "\<forall>t. t < 5 \<and> t < length x \<longrightarrow> ?d ! t = 0" by (simp add: CONV_K_def)
  moreover have "\<forall>t. 5 \<le> t \<and> t < length x \<longrightarrow> ?d ! t = x ! (t - 5)" by (simp add: CONV_K_def)
  ultimately show ?thesis by blast
qed

text \<open>
  The delay on seven input bits: only the first two come out, behind five zeros.
\<close>

theorem viterbi_delay_witness:
  "viterbi_decode (conv_encode [1, 0, 1, 1, 0, 1, 1]) = Some (7, [0, 0, 0, 0, 0, 1, 0])"
proof -
  have h: "set [1, 0, 1, 1, 0, 1, 1 :: nat] \<subseteq> {0, 1}" "1 \<le> length [1, 0, 1, 1, 0, 1, 1 :: nat]"
    "length [1, 0, 1, 1, 0, 1, 1 :: nat] \<le> 256" by simp_all
  from viterbi_delay [OF h] obtain decoded where
    d: "viterbi_decode (conv_encode [1, 0, 1, 1, 0, 1, 1]) = Some (7, decoded)" "length decoded = 7"
    and z: "\<forall>t. t < 5 \<and> t < 7 \<longrightarrow> decoded ! t = 0"
    and s: "\<forall>t. 5 \<le> t \<and> t < 7 \<longrightarrow> decoded ! t = [1, 0, 1, 1, 0, 1, 1 :: nat] ! (t - 5)"
    by auto
  have "decoded ! 0 = 0" "decoded ! 1 = 0" "decoded ! 2 = 0" "decoded ! 3 = 0" "decoded ! 4 = 0"
    using z by simp_all
  moreover have "decoded ! 5 = 1" "decoded ! 6 = 0" using s by simp_all
  ultimately have "decoded = [0, 0, 0, 0, 0, 1, 0]"
    using d(2) by (intro nth_equalityI) (auto simp: less_Suc_eq numeral_eq_Suc)
  with d(1) show ?thesis by simp
qed

text \<open>
  Claim C1 (noiseless round trip) does not hold of the code: the input 1, 0, 1, 1 of the
  specification's own scenario is encoded and then decoded, without noise, to 0, 0, 0, 0.
\<close>

theorem viterbi_roundtrip_fails:
  "viterbi_decode (conv_encode [1, 0, 1, 1]) = Some (4, [0, 0, 0, 0])"
  by code_simp

lemma filter_bit_Suc:
  "length (filter (bit x) [0..<Suc k]) = of_bool (odd x) + length (filter (bit (x div 2)) [0..<k])" for x :: nat
proof -
  have "[0..<Suc k] = 0 # map Suc [0..<k]" by (simp add: upt_conv_Cons map_Suc_upt)
  then have "filter (bit x) [0..<Suc k] = filter (bit x) (0 # map Suc [0..<k])" by simp
  also have "length \<dots> = of_bool (odd x) + length (filter (bit x \<circ> Suc) [0..<k])"
    by (simp add: filter_map bit_0)
  also have "bit x \<circ> Suc = bit (x div 2)" by (rule ext) (simp add: bit_Suc)
  finally show ?thesis .
qed

lemma popcount_filter: "x < 2 ^ k \<Longrightarrow> popcount x = length (filter (bit x) [0..<k])"
proof (induction k arbitrary: x)
  case 0
  then show ?case by (simp add: popcount_0)
next
  case (Suc k)
  show ?case
  proof (cases "x = 0")
    case True
    then show ?thesis by (simp add: popcount_0)
  next
    case False
    have "x div 2 < 2 ^ k" using Suc.prems by simp
    from Suc.IH [OF this] have "popcount x = x mod 2 + length (filter (bit (x div 2)) [0..<k])"
      using popcount_rec [OF False] by simp
    moreover have "x mod 2 = of_bool (odd x)" by (simp add: mod_2_eq_odd)
    ultimately show ?thesis unfolding filter_bit_Suc by simp
  qed
qed

lemma and_le_right: "(a::nat) AND b \<le> b"
proof -
  have "int a AND int b \<le> int b" by (rule AND_upper2) simp
  then have "int (a AND b) \<le> int b" by (simp only: of_nat_and_eq)
  then show ?thesis by simp
qed

lemma popcount_parity:
  assumes "g < 128"
  shows "popcount (v AND g) AND 1 = spec_parity (v AND g)"
proof -
  have "v AND g \<le> g" by (rule and_le_right)
  then have "v AND g < 2 ^ 7" using assms by simp
  from popcount_filter [OF this] show ?thesis
    by (simp add: spec_parity_def CONV_K_def and_one_eq)
qed

lemma enc_reg_spec:
  assumes "set inp \<subseteq> {0, 1}"
  shows "enc_reg 0 inp = spec_register inp"
  using assms
proof (induction inp rule: rev_induct)
  case Nil
  then show ?case by (simp add: enc_reg_def spec_register_def)
next
  case (snoc b inp)
  then have b: "b < 2" and ih: "enc_reg 0 inp = spec_register inp" by auto
  have c: "CONV_STATES * 2 - 1 = 127" "(2::nat) ^ CONV_K = 128" by (simp_all add: CONV_STATES_64 CONV_K_def)
  have "enc_reg 0 (inp @ [b]) = (push_bit 1 (enc_reg 0 inp) OR b) mod 128"
    unfolding enc_reg_def c by (simp only: foldl_append foldl_Cons foldl_Nil bit_and_1 [OF b] and_127)
  also have "\<dots> = spec_register (inp @ [b])"
    unfolding ih spec_register_def c by simp
  finally show ?case .
qed

text \<open>
  Claim C8 (encoder definition). For every bit sequence \<open>x\<close>, \<^verbatim>\<open>conv_encode\<close> produces
  \<open>2 * n\<close> bits; the register starts at 0, and the bits at positions \<open>2 * i\<close> and
  \<open>2 * i + 1\<close> are the parities of the register after input bit \<open>i\<close>, ANDed with the
  generators 0133 and 0171 (octal, written out digit by digit below).
\<close>

theorem conv_encode_definition:
  assumes "set x \<subseteq> {0, 1}"
  shows "length (conv_encode x) = 2 * length x
    \<and> spec_register [] = 0
    \<and> (\<forall>i<length x.
          conv_encode x ! (2 * i) = spec_parity (spec_register (take (Suc i) x) AND (1 * 8 ^ 2 + 3 * 8 + 3))
        \<and> conv_encode x ! (2 * i + 1) = spec_parity (spec_register (take (Suc i) x) AND (1 * 8 ^ 2 + 7 * 8 + 1)))"
proof (intro conjI allI impI)
  show "length (conv_encode x) = 2 * length x" by (rule conv_encode_length)
  show "spec_register [] = 0" by (simp add: spec_register_def)
next
  fix i assume i: "i < length x"
  have sub: "set (take (Suc i) x) \<subseteq> {0, 1}" using assms by (meson set_take_subset subset_trans)
  have g: "CONV_G0 = 1 * 8 ^ 2 + 3 * 8 + 3" "CONV_G1 = 1 * 8 ^ 2 + 7 * 8 + 1"
    by (simp_all add: CONV_G0_def CONV_G1_def)
  have lt: "CONV_G0 < 128" "CONV_G1 < 128" by (simp_all add: CONV_G0_def CONV_G1_def)
  show "conv_encode x ! (2 * i) = spec_parity (spec_register (take (Suc i) x) AND (1 * 8 ^ 2 + 3 * 8 + 3))"
    unfolding conv_encode_def conv_encode_loop_nth [OF i, THEN conjunct1] enc_reg_spec [OF sub]
      popcount_parity [OF lt(1)] unfolding g(1) by (rule refl)
  show "conv_encode x ! (2 * i + 1) = spec_parity (spec_register (take (Suc i) x) AND (1 * 8 ^ 2 + 7 * 8 + 1))"
    unfolding conv_encode_def conv_encode_loop_nth [OF i, THEN conjunct2] enc_reg_spec [OF sub]
      popcount_parity [OF lt(2)] unfolding g(2) by (rule refl)
qed

text \<open>
  The encoder's third output pair on the input 1, 0, 1, 1.
\<close>

theorem conv_encode_definition_witness:
  "length (conv_encode [1, 0, 1, 1]) = 2 * length [1, 0, 1, 1 :: nat]
   \<and> conv_encode [1, 0, 1, 1] ! (2 * 2) = spec_parity (spec_register (take (Suc 2) [1, 0, 1, 1]) AND (1 * 8 ^ 2 + 3 * 8 + 3))
   \<and> conv_encode [1, 0, 1, 1] ! (2 * 2 + 1) = spec_parity (spec_register (take (Suc 2) [1, 0, 1, 1]) AND (1 * 8 ^ 2 + 7 * 8 + 1))"
proof -
  have h: "set [1, 0, 1, 1 :: nat] \<subseteq> {0, 1}" by simp
  have "(2::nat) < length [1, 0, 1, 1 :: nat]" by simp
  then show ?thesis using conv_encode_definition [OF h] by blast
qed

end
